theory Spec2Isabelle
  imports Complex_Main "HOL-Library.Multiset" "HOL-Library.List_Lexorder" "HOL-Library.Char_ord"
begin

section \<open>The in-memory vector store and its similarity query\<close>

text \<open>
  The Go source keeps a slice of entries sorted by identifier behind a reader/writer
  lock, looks identifiers up with \<^verbatim>\<open>slices.BinarySearchFunc\<close>, and answers a query by a
  recursive fork-join scan. Every operation holds the lock for its whole duration, so an
  operation is modelled as a function from the store before it to the store after it.

  Numbers. \<^verbatim>\<open>float32\<close> scores are modelled as elements of a linear order \<open>'f\<close>; the two
  metrics of the source are given over exact arithmetic (\<open>real\<close> for the cosine metric).
  Rounding, infinities and NaN are not represented. The store and the query engine only
  compare scores (\<open><\<close>, \<open>>\<close>, \<open>\<ge>\<close>); no statement below depends on the numeric value a
  metric computes.

  Failures. A run-time panic of the Go program is a value \<open>Inl p\<close>. Running out of memory
  is not represented.

  Pointers. The store holds \<^verbatim>\<open>*Entry\<close> values and never writes through them; an entry pointer
  is modelled by the entry it points to, and nil entries are not represented.
\<close>

subsection \<open>Data model\<close>

type_synonym ID = string

record ('m, 'f) Entry =
  ID :: ID
  Metadata :: 'm
  Vector :: "'f list"

datatype panic = IndexOutOfRange | MakeSliceCapOutOfRange

text \<open>The interface \<^verbatim>\<open>DistanceMetric\<close>: a record of its two methods.\<close>

record 'f DistanceMetric =
  Distance :: "'f list \<Rightarrow> 'f list \<Rightarrow> panic + 'f"
  BiggerIsCloser :: bool

text \<open>\<^verbatim>\<open>VectorDB\<close> without its mutex.\<close>

record ('m, 'f) VectorDB =
  entries :: "('m, 'f) Entry list"
  distanceMetric :: "'f DistanceMetric"

record ('m, 'f) QueryResult =
  Score :: 'f
  Entry :: "('m, 'f) Entry"

text \<open>\<^verbatim>\<open>Predicate\<close> is a function value that may be nil: \<open>None\<close> is nil.\<close>

record ('m, 'f) QueryOptions =
  TopK :: int
  MinimumScore :: 'f
  Predicate :: "(('m, 'f) Entry \<Rightarrow> bool) option"

subsection \<open>Library functions of package slices\<close>

text \<open>
  The functions of Go's standard package \<^verbatim>\<open>slices\<close> that the store and the query call,
  after the library's implementation.

  \<^verbatim>\<open>slices.BinarySearchFunc(x, target, cmp)\<close>: the loop keeps \<open>i \<le> h < j \<le> len(x)\<close>, so
  \<open>x ! h\<close> is always inside the slice. It returns the position and whether the element
  there compares equal to the target.
\<close>

function BinarySearchFunc_loop :: "('e \<Rightarrow> 't \<Rightarrow> int) \<Rightarrow> 'e list \<Rightarrow> 't \<Rightarrow> nat \<Rightarrow> nat \<Rightarrow> nat" where
  "BinarySearchFunc_loop cmp x target i j =
     (if i < j then
        (let h = (i + j) div 2 in
         if cmp (x ! h) target < 0 then BinarySearchFunc_loop cmp x target (h + 1) j
         else BinarySearchFunc_loop cmp x target i h)
      else i)"
  by pat_completeness auto
termination
  by (relation "measure (\<lambda>(cmp, x, target, i, j). j - i)") auto

declare BinarySearchFunc_loop.simps [simp del]

definition BinarySearchFunc :: "'e list \<Rightarrow> 't \<Rightarrow> ('e \<Rightarrow> 't \<Rightarrow> int) \<Rightarrow> nat \<times> bool" where
  "BinarySearchFunc x target cmp =
     (let n = length x;
          i = BinarySearchFunc_loop cmp x target 0 n
      in (i, i < n \<and> cmp (x ! i) target = 0))"

text \<open>
  \<^verbatim>\<open>slices.Insert(s, i, v)\<close> and \<^verbatim>\<open>slices.Delete(s, i, j)\<close>. Both panic on an index outside
  the slice; every call below passes a position returned by the binary search, which is at
  most the length (lemma \<open>BinarySearchFunc_le_length\<close>).
\<close>

definition slices_Insert :: "'a list \<Rightarrow> nat \<Rightarrow> 'a \<Rightarrow> 'a list" where
  "slices_Insert s i v = take i s @ v # drop i s"

definition slices_Delete :: "'a list \<Rightarrow> nat \<Rightarrow> nat \<Rightarrow> 'a list" where
  "slices_Delete s i j = take i s @ drop j s"

subsection \<open>The entry store\<close>

definition NewVectorDB :: "'f DistanceMetric \<Rightarrow> ('m, 'f) Entry list \<Rightarrow> ('m, 'f) VectorDB" where
  "NewVectorDB dm es = \<lparr>entries = es, distanceMetric = dm\<rparr>"

text \<open>The comparison closure of \<^verbatim>\<open>search\<close>.\<close>

definition search_cmp :: "('m, 'f) Entry \<Rightarrow> ID \<Rightarrow> int" where
  "search_cmp e searchID = (if ID e < searchID then - 1 else if ID e > searchID then 1 else 0)"

definition search :: "('m, 'f) VectorDB \<Rightarrow> ID \<Rightarrow> nat \<times> bool" where
  "search db ident = BinarySearchFunc (entries db) ident search_cmp"

definition Upsert :: "('m, 'f) VectorDB \<Rightarrow> ('m, 'f) Entry \<Rightarrow> ('m, 'f) VectorDB" where
  "Upsert db entry =
     (case search db (ID entry) of
        (n, ok) \<Rightarrow>
          if \<not> ok then db\<lparr>entries := slices_Insert (entries db) n entry\<rparr>
          else db\<lparr>entries := (entries db)[n := entry]\<rparr>)"

definition Get :: "('m, 'f) VectorDB \<Rightarrow> ID \<Rightarrow> ('m, 'f) Entry option \<times> bool" where
  "Get db ident =
     (case search db ident of
        (n, ok) \<Rightarrow> if \<not> ok then (None, False) else (Some (entries db ! n), True))"

definition Delete :: "('m, 'f) VectorDB \<Rightarrow> ID \<Rightarrow> ('m, 'f) VectorDB" where
  "Delete db ident =
     (case search db ident of
        (n, ok) \<Rightarrow>
          if ok then db\<lparr>entries := slices_Delete (entries db) n (n + 1)\<rparr> else db)"

text \<open>A sequence of mutating calls made on a store, in the order they are made.\<close>

datatype ('m, 'f) StoreOp = OpUpsert "('m, 'f) Entry" | OpDelete ID

fun applyOp :: "('m, 'f) VectorDB \<Rightarrow> ('m, 'f) StoreOp \<Rightarrow> ('m, 'f) VectorDB" where
  "applyOp db (OpUpsert e) = Upsert db e"
| "applyOp db (OpDelete ident) = Delete db ident"

fun applyOps :: "('m, 'f) VectorDB \<Rightarrow> ('m, 'f) StoreOp list \<Rightarrow> ('m, 'f) VectorDB" where
  "applyOps db [] = db"
| "applyOps db (x # xs) = applyOps (applyOp db x) xs"

text \<open>
  What the specification expects \<^verbatim>\<open>Get\<close> to see after a sequence of calls: the last call
  that names the identifier decides; when no call names it, the store the sequence started
  from decides.
\<close>

fun opID :: "('m, 'f) StoreOp \<Rightarrow> ID" where
  "opID (OpUpsert e) = ID e"
| "opID (OpDelete ident) = ident"

fun spec_lastOp :: "ID \<Rightarrow> ('m, 'f) StoreOp list \<Rightarrow> ('m, 'f) StoreOp option" where
  "spec_lastOp ident [] = None"
| "spec_lastOp ident (x # xs) =
     (case spec_lastOp ident xs of
        Some y \<Rightarrow> Some y
      | None \<Rightarrow> if opID x = ident then Some x else None)"

subsection \<open>Distance metrics\<close>

text \<open>
  Both \<^verbatim>\<open>Distance\<close> methods run \<^verbatim>\<open>for k := range a\<close> and read \<^verbatim>\<open>a[k]\<close> and \<^verbatim>\<open>b[k]\<close>: the read of
  \<^verbatim>\<open>b[k]\<close> panics when \<open>k\<close> is not an index of \<open>b\<close>; \<open>k\<close> is always an index of \<open>a\<close>.
\<close>

fun DotProduct_loop :: "'f::semiring_0 list \<Rightarrow> 'f list \<Rightarrow> nat list \<Rightarrow> 'f \<Rightarrow> panic + 'f" where
  "DotProduct_loop a b [] dotProduct = Inr dotProduct"
| "DotProduct_loop a b (k # ks) dotProduct =
     (if k < length b then DotProduct_loop a b ks (dotProduct + a ! k * b ! k)
      else Inl IndexOutOfRange)"

definition DotProduct_Distance :: "'f::semiring_0 list \<Rightarrow> 'f list \<Rightarrow> panic + 'f" where
  "DotProduct_Distance a b = DotProduct_loop a b [0..<length a] 0"

definition DotProduct :: "'f::semiring_0 DistanceMetric" where
  "DotProduct = \<lparr>Distance = DotProduct_Distance, BiggerIsCloser = True\<rparr>"

fun CosineSimilarity_loop ::
  "real list \<Rightarrow> real list \<Rightarrow> nat list \<Rightarrow> real \<times> real \<times> real \<Rightarrow> panic + real \<times> real \<times> real" where
  "CosineSimilarity_loop a b [] acc = Inr acc"
| "CosineSimilarity_loop a b (k # ks) (dotProduct, magnitudeA, magnitudeB) =
     (if k < length b then
        CosineSimilarity_loop a b ks
          (dotProduct + a ! k * b ! k, magnitudeA + (a ! k)\<^sup>2, magnitudeB + (b ! k)\<^sup>2)
      else Inl IndexOutOfRange)"

definition CosineSimilarity_Distance :: "real list \<Rightarrow> real list \<Rightarrow> panic + real" where
  "CosineSimilarity_Distance a b =
     (case CosineSimilarity_loop a b [0..<length a] (0, 0, 0) of
        Inl p \<Rightarrow> Inl p
      | Inr (dotProduct, magnitudeA, magnitudeB) \<Rightarrow>
          Inr (dotProduct / (sqrt magnitudeA * sqrt magnitudeB)))"

definition CosineSimilarity :: "real DistanceMetric" where
  "CosineSimilarity = \<lparr>Distance = CosineSimilarity_Distance, BiggerIsCloser = False\<rparr>"

subsection \<open>The query engine\<close>

text \<open>The comparison closure handed to the binary search inside \<^verbatim>\<open>querySlice\<close>.\<close>

definition querySlice_cmp ::
  "('m, 'f::linorder) VectorDB \<Rightarrow> ('m, 'f) QueryResult \<Rightarrow> ('m, 'f) QueryResult \<Rightarrow> int" where
  "querySlice_cmp db a b =
     (let n = (if Score a < Score b then 1 else if Score a > Score b then - 1 else 0)
      in if BiggerIsCloser (distanceMetric db) then - n else n)"

text \<open>
  The sequential loop over a partition. \<^verbatim>\<open>results\<close> is made with capacity \<^verbatim>\<open>TopK\<close>, and its
  capacity stays \<^verbatim>\<open>TopK\<close>: \<^verbatim>\<open>slices.Delete\<close> keeps the backing array, and \<^verbatim>\<open>slices.Insert\<close>
  allocates only when the new length would exceed the capacity, which the loop rules out
  (lemma \<open>querySlice_loop_length\<close>: the length never exceeds \<^verbatim>\<open>TopK\<close>). So \<^verbatim>\<open>cap(results)\<close> is
  \<open>nat (TopK opt)\<close> throughout.
\<close>

fun querySlice_loop ::
  "('m, 'f::linorder) VectorDB \<Rightarrow> 'f list \<Rightarrow> ('m, 'f) QueryOptions \<Rightarrow> ('m, 'f) Entry list \<Rightarrow>
   ('m, 'f) QueryResult list \<Rightarrow> panic + ('m, 'f) QueryResult list" where
  "querySlice_loop db vector opt [] results = Inr results"
| "querySlice_loop db vector opt (e # es) results =
     (if (case Predicate opt of None \<Rightarrow> False | Some p \<Rightarrow> \<not> p e) then
        querySlice_loop db vector opt es results
      else
        (case Distance (distanceMetric db) vector (Vector e) of
           Inl p \<Rightarrow> Inl p
         | Inr score \<Rightarrow>
             if score < MinimumScore opt then querySlice_loop db vector opt es results
             else
               (let qr = \<lparr>Score = score, Entry = e\<rparr>;
                    n = fst (BinarySearchFunc results qr (querySlice_cmp db))
                in if n = nat (TopK opt) then querySlice_loop db vector opt es results
                   else
                     (let results' =
                        (if int (length results) = TopK opt
                         then slices_Delete results (length results - 1) (length results)
                         else results)
                      in querySlice_loop db vector opt es (slices_Insert results' n qr)))))"

text \<open>
  \<^verbatim>\<open>make([]QueryResult, 0, o.TopK)\<close> panics with \<^verbatim>\<open>makeslice: cap out of range\<close> when the
  capacity is negative or when the slice would take more bytes than the runtime's \<^verbatim>\<open>maxAlloc\<close>.
  On a 64-bit platform \<^verbatim>\<open>maxAlloc\<close> is \<open>2\<^sup>4\<^sup>8\<close> bytes and a \<^verbatim>\<open>QueryResult\<close> (a \<^verbatim>\<open>float32\<close> and a
  pointer) takes 16 bytes, so the largest capacity that \<^verbatim>\<open>make\<close> accepts is \<open>2\<^sup>4\<^sup>4\<close>. Whether the
  machine has the memory for an accepted capacity is not represented.
\<close>

definition makeslice_maxCap :: int where
  "makeslice_maxCap = 2 ^ 44"

definition querySlice_leaf ::
  "('m, 'f::linorder) VectorDB \<Rightarrow> ('m, 'f) Entry list \<Rightarrow> 'f list \<Rightarrow> ('m, 'f) QueryOptions \<Rightarrow>
   panic + ('m, 'f) QueryResult list" where
  "querySlice_leaf db es vector opt =
     (if TopK opt < 0 \<or> makeslice_maxCap < TopK opt then Inl MakeSliceCapOutOfRange
      else querySlice_loop db vector opt es [])"

text \<open>
  The merge loop of the fork-join branch. It appends one head per iteration until
  \<^verbatim>\<open>len(leftResult) + len(rightResult)\<close> results are out, that is until both inputs are
  empty.
\<close>

fun querySlice_merge ::
  "('m, 'f::linorder) QueryResult list \<Rightarrow> ('m, 'f) QueryResult list \<Rightarrow> ('m, 'f) QueryResult list" where
  "querySlice_merge [] [] = []"
| "querySlice_merge [] (r # rightResult) = r # querySlice_merge [] rightResult"
| "querySlice_merge (l # leftResult) [] = l # querySlice_merge leftResult []"
| "querySlice_merge (l # leftResult) (r # rightResult) =
     (if Score l \<ge> Score r then l # querySlice_merge leftResult (r # rightResult)
      else r # querySlice_merge (l # leftResult) rightResult)"

definition threshold :: nat where
  "threshold = 100"

text \<open>
  \<^verbatim>\<open>querySlice\<close>. The left half runs on a new goroutine, the right half on the current one,
  and the caller waits for both; a panic in either ends the program.
\<close>

function querySlice ::
  "('m, 'f::linorder) VectorDB \<Rightarrow> ('m, 'f) Entry list \<Rightarrow> 'f list \<Rightarrow> ('m, 'f) QueryOptions \<Rightarrow>
   panic + ('m, 'f) QueryResult list" where
  "querySlice db es vector opt =
     (if length es > threshold then
        (let half = length es div 2 in
         case querySlice db (take half es) vector opt of
           Inl p \<Rightarrow> Inl p
         | Inr leftResult \<Rightarrow>
             (case querySlice db (drop half es) vector opt of
                Inl p \<Rightarrow> Inl p
              | Inr rightResult \<Rightarrow> Inr (querySlice_merge leftResult rightResult)))
      else querySlice_leaf db es vector opt)"
  by pat_completeness auto
termination
  by (relation "measure (\<lambda>(db, es, vector, opt). length es)") (auto simp: threshold_def)

declare querySlice.simps [simp del]

definition Query ::
  "('m, 'f::linorder) VectorDB \<Rightarrow> 'f list \<Rightarrow> ('m, 'f) QueryOptions \<Rightarrow> panic + ('m, 'f) QueryResult list" where
  "Query db vector opt = querySlice db (entries db) vector opt"

subsection \<open>Vocabulary of the properties\<close>

text \<open>
  An entry is accepted by a scan when neither \<^verbatim>\<open>continue\<close> of the loop skips it: the predicate,
  if there is one, holds, and the score is not below \<^verbatim>\<open>MinimumScore\<close>.
\<close>

definition accepted ::
  "('m, 'f::linorder) VectorDB \<Rightarrow> 'f list \<Rightarrow> ('m, 'f) QueryOptions \<Rightarrow> ('m, 'f) Entry \<Rightarrow> bool" where
  "accepted db vector opt e =
     ((case Predicate opt of None \<Rightarrow> True | Some p \<Rightarrow> p e) \<and>
      (case Distance (distanceMetric db) vector (Vector e) of
         Inl p \<Rightarrow> False
       | Inr score \<Rightarrow> \<not> score < MinimumScore opt))"

text \<open>
  A scan runs without a panic when the metric returns a score for every entry the predicate
  lets through.
\<close>

definition scorable ::
  "('m, 'f::linorder) VectorDB \<Rightarrow> 'f list \<Rightarrow> ('m, 'f) QueryOptions \<Rightarrow> ('m, 'f) Entry \<Rightarrow> bool" where
  "scorable db vector opt e =
     ((case Predicate opt of None \<Rightarrow> False | Some p \<Rightarrow> \<not> p e) \<or>
      (case Distance (distanceMetric db) vector (Vector e) of Inl p \<Rightarrow> False | Inr score \<Rightarrow> True))"

text \<open>
  The body of the scan loop from the construction of \<^verbatim>\<open>qr\<close> on, as a function of the
  results so far: where \<open>querySlice_loop\<close> continues with the results it returns (lemma
  \<open>querySlice_loop_Cons\<close>).
\<close>

definition offer ::
  "('m, 'f::linorder) VectorDB \<Rightarrow> ('m, 'f) QueryOptions \<Rightarrow> ('m, 'f) QueryResult list \<Rightarrow>
   ('m, 'f) QueryResult \<Rightarrow> ('m, 'f) QueryResult list" where
  "offer db opt results qr =
     (let n = fst (BinarySearchFunc results qr (querySlice_cmp db))
      in if n = nat (TopK opt) then results
         else slices_Insert
                (if int (length results) = TopK opt
                 then slices_Delete results (length results - 1) (length results)
                 else results) n qr)"

text \<open>
  The order a scan keeps its results in, read off the comparison closure: ascending scores
  when \<^verbatim>\<open>BiggerIsCloser()\<close> is true, descending scores when it is false.
\<close>

definition scanOrder ::
  "('m, 'f::linorder) VectorDB \<Rightarrow> ('m, 'f) QueryResult \<Rightarrow> ('m, 'f) QueryResult \<Rightarrow> bool" where
  "scanOrder db a b =
     (if BiggerIsCloser (distanceMetric db) then Score a \<le> Score b else Score b \<le> Score a)"

subsection \<open>Test data\<close>

text \<open>The five entries that \<^verbatim>\<open>TestVectorDB\<close> upserts; the metadata is the name, or nil.\<close>

definition testEntries :: "(string option, real) Entry list" where
  "testEntries =
     [\<lparr>ID = ''1'', Metadata = Some ''Jeff'', Vector = [1, 2, 3]\<rparr>,
      \<lparr>ID = ''2'', Metadata = Some ''Marc'', Vector = [4, 5, 6]\<rparr>,
      \<lparr>ID = ''3'', Metadata = Some ''Aidan'', Vector = [7, 8, 9]\<rparr>,
      \<lparr>ID = ''4'', Metadata = Some ''Grant'', Vector = [10, 11, 12]\<rparr>,
      \<lparr>ID = ''5'', Metadata = None, Vector = [13, 14, 15]\<rparr>]"

text \<open>
  Three entries on the axes of the plane. Against the query \<open>[1, 0]\<close> both metrics give them
  the scores \<open>1\<close>, \<open>0\<close> and \<open>-1\<close>.
\<close>

definition axisA :: "(string option, real) Entry" where
  "axisA = \<lparr>ID = ''a'', Metadata = None, Vector = [1, 0]\<rparr>"

definition axisB :: "(string option, real) Entry" where
  "axisB = \<lparr>ID = ''b'', Metadata = None, Vector = [0, 1]\<rparr>"

definition axisC :: "(string option, real) Entry" where
  "axisC = \<lparr>ID = ''c'', Metadata = None, Vector = [- 1, 0]\<rparr>"

text \<open>
  A store of \<open>n\<close> entries with the identifiers \<open>a\<close>, \<open>aa\<close>, \<open>aaa\<close>, ... (ascending) and the vector
  \<open>[1, 0]\<close> each.
\<close>

definition manyEntries :: "nat \<Rightarrow> (string option, real) Entry list" where
  "manyEntries n =
     map (\<lambda>i. \<lparr>ID = replicate (Suc i) CHR ''a'', Metadata = None, Vector = [1, 0]\<rparr>) [0..<n]"

section \<open>Verification\<close>

subsection \<open>Binary search\<close>

lemma BinarySearchFunc_loop_stop: "\<not> i < j \<Longrightarrow> BinarySearchFunc_loop cmp x t i j = i"
  by (subst BinarySearchFunc_loop.simps) simp

lemma BinarySearchFunc_loop_right:
  "i < j \<Longrightarrow> cmp (x ! ((i + j) div 2)) t < 0 \<Longrightarrow>
   BinarySearchFunc_loop cmp x t i j = BinarySearchFunc_loop cmp x t ((i + j) div 2 + 1) j"
  by (subst BinarySearchFunc_loop.simps) (simp add: Let_def)

lemma BinarySearchFunc_loop_left:
  "i < j \<Longrightarrow> \<not> cmp (x ! ((i + j) div 2)) t < 0 \<Longrightarrow>
   BinarySearchFunc_loop cmp x t i j = BinarySearchFunc_loop cmp x t i ((i + j) div 2)"
  by (subst BinarySearchFunc_loop.simps) (simp add: Let_def)

lemma BinarySearchFunc_loop_bounds:
  "i \<le> j \<Longrightarrow> i \<le> BinarySearchFunc_loop cmp x t i j \<and> BinarySearchFunc_loop cmp x t i j \<le> j"
proof (induction cmp x t i j rule: BinarySearchFunc_loop.induct)
  case (1 cmp x t i j)
  show ?case
  proof (cases "i < j")
    case False
    with "1.prems" show ?thesis by (simp add: BinarySearchFunc_loop_stop)
  next
    case True
    define h where "h = (i + j) div 2"
    have hb: "i \<le> h" "h < j" using True by (simp_all add: h_def)
    show ?thesis
    proof (cases "cmp (x ! h) t < 0")
      case neg: True
      have "h + 1 \<le> BinarySearchFunc_loop cmp x t (h + 1) j \<and> BinarySearchFunc_loop cmp x t (h + 1) j \<le> j"
        using "1.IH"(1)[OF True h_def neg] hb by simp
      moreover have "BinarySearchFunc_loop cmp x t i j = BinarySearchFunc_loop cmp x t (h + 1) j"
        using True neg by (simp add: h_def BinarySearchFunc_loop_right)
      ultimately show ?thesis using hb by simp
    next
      case nonneg: False
      have "i \<le> BinarySearchFunc_loop cmp x t i h \<and> BinarySearchFunc_loop cmp x t i h \<le> h"
        using "1.IH"(2)[OF True h_def nonneg] hb by simp
      moreover have "BinarySearchFunc_loop cmp x t i j = BinarySearchFunc_loop cmp x t i h"
        using True nonneg by (simp add: h_def BinarySearchFunc_loop_left)
      ultimately show ?thesis using hb by simp
    qed
  qed
qed

text \<open>The loop invariant, for a comparison that is negative on a prefix of the slice.\<close>

lemma BinarySearchFunc_loop_partition:
  assumes "i \<le> j" "j \<le> length x"
    and "\<forall>k k'. k \<le> k' \<and> k' < length x \<and> cmp (x ! k') t < 0 \<longrightarrow> cmp (x ! k) t < 0"
    and "\<forall>k<i. cmp (x ! k) t < 0"
    and "\<forall>k. j \<le> k \<and> k < length x \<longrightarrow> \<not> cmp (x ! k) t < 0"
  shows "(\<forall>k<BinarySearchFunc_loop cmp x t i j. cmp (x ! k) t < 0) \<and>
         (\<forall>k. BinarySearchFunc_loop cmp x t i j \<le> k \<and> k < length x \<longrightarrow> \<not> cmp (x ! k) t < 0)"
  using assms
proof (induction cmp x t i j rule: BinarySearchFunc_loop.induct)
  case (1 cmp x t i j)
  show ?case
  proof (cases "i < j")
    case False
    then have "BinarySearchFunc_loop cmp x t i j = i" by (rule BinarySearchFunc_loop_stop)
    moreover have "i = j" using False "1.prems"(1) by simp
    ultimately show ?thesis using "1.prems"(4,5) by simp
  next
    case True
    define h where "h = (i + j) div 2"
    have hb: "i \<le> h" "h < j" using True by (simp_all add: h_def)
    show ?thesis
    proof (cases "cmp (x ! h) t < 0")
      case neg: True
      have below: "\<forall>k<h + 1. cmp (x ! k) t < 0"
      proof (intro allI impI)
        fix k assume "k < h + 1"
        then have "k \<le> h \<and> h < length x \<and> cmp (x ! h) t < 0"
          using hb "1.prems"(2) neg by simp
        then show "cmp (x ! k) t < 0" using "1.prems"(3) by blast
      qed
      have eq: "BinarySearchFunc_loop cmp x t i j = BinarySearchFunc_loop cmp x t (h + 1) j"
        using True neg by (simp add: h_def BinarySearchFunc_loop_right)
      have "h + 1 \<le> j" using hb by simp
      from "1.IH"(1)[OF True h_def neg this "1.prems"(2,3) below "1.prems"(5)]
      show ?thesis unfolding eq .
    next
      case nonneg: False
      have above: "\<forall>k. h \<le> k \<and> k < length x \<longrightarrow> \<not> cmp (x ! k) t < 0"
      proof (intro allI impI)
        fix k assume k: "h \<le> k \<and> k < length x"
        show "\<not> cmp (x ! k) t < 0"
        proof
          assume "cmp (x ! k) t < 0"
          with k "1.prems"(3) have "cmp (x ! h) t < 0" by blast
          with nonneg show False by simp
        qed
      qed
      have eq: "BinarySearchFunc_loop cmp x t i j = BinarySearchFunc_loop cmp x t i h"
        using True nonneg by (simp add: h_def BinarySearchFunc_loop_left)
      have "h \<le> length x" using hb "1.prems"(2) by simp
      from "1.IH"(2)[OF True h_def nonneg hb(1) this "1.prems"(3,4) above]
      show ?thesis unfolding eq .
    qed
  qed
qed

lemma BinarySearchFunc_le_length: "fst (BinarySearchFunc x t cmp) \<le> length x"
  using BinarySearchFunc_loop_bounds[of 0 "length x" cmp x t]
  by (simp add: BinarySearchFunc_def Let_def)

lemma BinarySearchFunc_partition:
  assumes "\<forall>k k'. k \<le> k' \<and> k' < length x \<and> cmp (x ! k') t < 0 \<longrightarrow> cmp (x ! k) t < 0"
  shows "(\<forall>k<fst (BinarySearchFunc x t cmp). cmp (x ! k) t < 0) \<and>
         (\<forall>k. fst (BinarySearchFunc x t cmp) \<le> k \<and> k < length x \<longrightarrow> \<not> cmp (x ! k) t < 0)"
  using BinarySearchFunc_loop_partition[of 0 "length x" x cmp t] assms
  by (simp add: BinarySearchFunc_def Let_def)

lemma BinarySearchFunc_found:
  "snd (BinarySearchFunc x t cmp) \<longleftrightarrow>
     fst (BinarySearchFunc x t cmp) < length x \<and> cmp (x ! fst (BinarySearchFunc x t cmp)) t = 0"
  by (simp add: BinarySearchFunc_def Let_def)

subsection \<open>Searching a sorted store\<close>

lemma in_set_drop_nth: "e \<in> set (drop n xs) \<longleftrightarrow> (\<exists>k. n \<le> k \<and> k < length xs \<and> xs ! k = e)"
proof
  assume "e \<in> set (drop n xs)"
  then obtain i where "i < length xs - n" "drop n xs ! i = e"
    by (auto simp: in_set_conv_nth)
  then have "n \<le> n + i \<and> n + i < length xs \<and> xs ! (n + i) = e" by simp
  then show "\<exists>k. n \<le> k \<and> k < length xs \<and> xs ! k = e" by blast
next
  assume "\<exists>k. n \<le> k \<and> k < length xs \<and> xs ! k = e"
  then obtain k where k: "n \<le> k" "k < length xs" "xs ! k = e" by blast
  then have "k - n < length (drop n xs)" "drop n xs ! (k - n) = e" by simp_all
  then show "e \<in> set (drop n xs)" using nth_mem by blast
qed

lemma in_set_take_nth: "e \<in> set (take n xs) \<longleftrightarrow> (\<exists>k. k < n \<and> k < length xs \<and> xs ! k = e)"
  by (auto simp: in_set_conv_nth)

lemma search_cmp_neg: "search_cmp e t < 0 \<longleftrightarrow> ID e < t"
  by (simp add: search_cmp_def)

lemma search_cmp_zero: "search_cmp e t = 0 \<longleftrightarrow> ID e = t"
  by (auto simp: search_cmp_def)

lemma search_le_length: "fst (search db t) \<le> length (entries db)"
  by (simp add: search_def BinarySearchFunc_le_length)

lemma search_found: 
  "snd (search db t) \<longleftrightarrow> fst (search db t) < length (entries db) \<and> ID (entries db ! fst (search db t)) = t"
  by (simp add: search_def BinarySearchFunc_found search_cmp_zero)

lemma search_found_mem: "snd (search db t) \<Longrightarrow> t \<in> ID ` set (entries db)"
proof -
  assume "snd (search db t)"
  then have "fst (search db t) < length (entries db)" "ID (entries db ! fst (search db t)) = t"
    by (simp_all add: search_found)
  then show ?thesis by (metis nth_mem imageI)
qed

text \<open>On a store sorted by identifier the search returns the insertion point.\<close>

lemma search_sorted:
  assumes "sorted_wrt (<) (map ID (entries db))"
  shows "(\<forall>e \<in> set (take (fst (search db t)) (entries db)). ID e < t) \<and>
         (\<forall>e \<in> set (drop (fst (search db t)) (entries db)). t \<le> ID e)"
proof -
  let ?es = "entries db"
  let ?n = "fst (search db t)"
  have mono: "\<forall>k k'. k \<le> k' \<and> k' < length ?es \<and> search_cmp (?es ! k') t < 0 \<longrightarrow> search_cmp (?es ! k) t < 0"
  proof (intro allI impI)
    fix k k' assume h: "k \<le> k' \<and> k' < length ?es \<and> search_cmp (?es ! k') t < 0"
    have "ID (?es ! k) \<le> ID (?es ! k')"
    proof (cases "k = k'")
      case True then show ?thesis by simp
    next
      case False
      with h have "k < k'" "k' < length (map ID ?es)" by simp_all
      from sorted_wrt_nth_less[OF assms this] show ?thesis using h by simp
    qed
    moreover from h have "ID (?es ! k') < t" by (simp add: search_cmp_neg)
    ultimately have "ID (?es ! k) < t" by (rule le_less_trans)
    then show "search_cmp (?es ! k) t < 0" by (simp add: search_cmp_neg)
  qed
  from BinarySearchFunc_partition[of "entries db" search_cmp t, OF mono]
  have part: "\<forall>k<?n. ID (?es ! k) < t" "\<forall>k. ?n \<le> k \<and> k < length ?es \<longrightarrow> \<not> ID (?es ! k) < t"
    by (simp_all add: search_def search_cmp_neg)
  have "\<forall>e \<in> set (take ?n ?es). ID e < t"
    using part(1) by (auto simp: in_set_take_nth)
  moreover have "\<forall>e \<in> set (drop ?n ?es). t \<le> ID e"
  proof
    fix e assume "e \<in> set (drop ?n ?es)"
    then obtain k where "?n \<le> k" "k < length ?es" "?es ! k = e"
      by (auto simp: in_set_drop_nth)
    with part(2) show "t \<le> ID e" by (auto simp: not_less)
  qed
  ultimately show ?thesis by blast
qed

lemma search_absent:
  assumes "sorted_wrt (<) (map ID (entries db))" "\<not> snd (search db t)"
  shows "\<forall>e \<in> set (drop (fst (search db t)) (entries db)). t < ID e"
proof
  let ?es = "entries db"
  let ?n = "fst (search db t)"
  fix e assume e: "e \<in> set (drop ?n ?es)"
  then have le: "t \<le> ID e" using search_sorted[OF assms(1)] by blast
  from e obtain k where k: "?n \<le> k" "k < length ?es" "?es ! k = e"
    by (auto simp: in_set_drop_nth)
  have first: "?es ! ?n \<in> set (drop ?n ?es)"
    using k by (auto simp: in_set_drop_nth)
  have "ID e \<noteq> t"
  proof
    assume eq: "ID e = t"
    have "k = ?n"
    proof (rule ccontr)
      assume "k \<noteq> ?n"
      then have "?n < k" "k < length (map ID ?es)" using k by simp_all
      from sorted_wrt_nth_less[OF assms(1) this] have "ID (?es ! ?n) < t"
        using k eq by simp
      moreover have "t \<le> ID (?es ! ?n)"
        using search_sorted[OF assms(1), of t] first by blast
      ultimately show False by simp
    qed
    with k eq have "?n < length ?es \<and> ID (?es ! ?n) = t" by simp
    with assms(2) show False by (simp add: search_found)
  qed
  with le show "t < ID e" by simp
qed

subsection \<open>Upsert, Delete and Get on a sorted store\<close>

text \<open>
  The two outcomes of a search on a sorted store, as a split of the slice: a hit at
  position \<open>n\<close> has smaller identifiers before it and larger ones after it; a miss at \<open>n\<close>
  splits the slice into the smaller and the larger identifiers.
\<close>

lemma search_hit:
  assumes "sorted_wrt (<) (map ID (entries db))" "search db t = (n, True)"
  shows "\<exists>L r R. entries db = L @ r # R \<and> length L = n \<and> ID r = t \<and>
           (\<forall>x \<in> set L. ID x < t) \<and> (\<forall>y \<in> set R. t < ID y)"
proof -
  let ?es = "entries db"
  from assms(2) have n: "fst (search db t) = n" and ok: "snd (search db t)" by simp_all
  from ok n have lt: "n < length ?es" and idn: "ID (?es ! n) = t"
    by (simp_all add: search_found)
  have split: "?es = take n ?es @ ?es ! n # drop (Suc n) ?es"
    using lt by (simp add: id_take_nth_drop[symmetric])
  have small: "\<forall>x \<in> set (take n ?es). ID x < t"
    using search_sorted[OF assms(1), of t] n by simp
  have "sorted_wrt (<) (map ID (take n ?es @ ?es ! n # drop (Suc n) ?es))"
    using assms(1) split by simp
  then have large: "\<forall>y \<in> set (drop (Suc n) ?es). t < ID y"
    using idn by (simp add: sorted_wrt_append)
  have "length (take n ?es) = n" using lt by simp
  with split idn small large show ?thesis by blast
qed

lemma search_miss:
  assumes "sorted_wrt (<) (map ID (entries db))" "search db t = (n, False)"
  shows "\<exists>L R. entries db = L @ R \<and> length L = n \<and>
           (\<forall>x \<in> set L. ID x < t) \<and> (\<forall>y \<in> set R. t < ID y)"
proof -
  let ?es = "entries db"
  from assms(2) have n: "fst (search db t) = n" and ok: "\<not> snd (search db t)" by simp_all
  have le: "n \<le> length ?es" using search_le_length[of db t] n by simp
  have small: "\<forall>x \<in> set (take n ?es). ID x < t"
    using search_sorted[OF assms(1), of t] n by simp
  have large: "\<forall>y \<in> set (drop n ?es). t < ID y"
    using search_absent[OF assms(1) ok] n by simp
  have "?es = take n ?es @ drop n ?es" "length (take n ?es) = n" using le by simp_all
  with small large show ?thesis by blast
qed

lemma Upsert_hit:
  assumes "sorted_wrt (<) (map ID (entries db))" "search db (ID e) = (n, True)"
  shows "\<exists>L r R. entries db = L @ r # R \<and> entries (Upsert db e) = L @ e # R \<and> ID r = ID e \<and>
           (\<forall>x \<in> set L. ID x < ID e) \<and> (\<forall>y \<in> set R. ID e < ID y)"
proof -
  from search_hit[OF assms] obtain L r R where
    h: "entries db = L @ r # R" "length L = n" "ID r = ID e"
       "\<forall>x \<in> set L. ID x < ID e" "\<forall>y \<in> set R. ID e < ID y" by blast
  have "entries (Upsert db e) = L @ e # R"
    using assms(2) h(1) h(2)[symmetric] by (simp add: Upsert_def)
  with h show ?thesis by blast
qed

lemma Upsert_miss:
  assumes "sorted_wrt (<) (map ID (entries db))" "search db (ID e) = (n, False)"
  shows "\<exists>L R. entries db = L @ R \<and> entries (Upsert db e) = L @ e # R \<and>
           (\<forall>x \<in> set L. ID x < ID e) \<and> (\<forall>y \<in> set R. ID e < ID y)"
proof -
  from search_miss[OF assms] obtain L R where
    h: "entries db = L @ R" "length L = n"
       "\<forall>x \<in> set L. ID x < ID e" "\<forall>y \<in> set R. ID e < ID y" by blast
  have "entries (Upsert db e) = L @ e # R"
    using assms(2) h(1,2) by (simp add: Upsert_def slices_Insert_def)
  with h show ?thesis by blast
qed

lemma Delete_hit:
  assumes "sorted_wrt (<) (map ID (entries db))" "search db t = (n, True)"
  shows "\<exists>L r R. entries db = L @ r # R \<and> entries (Delete db t) = L @ R \<and> ID r = t \<and>
           (\<forall>x \<in> set L. ID x < t) \<and> (\<forall>y \<in> set R. t < ID y)"
proof -
  from search_hit[OF assms] obtain L r R where
    h: "entries db = L @ r # R" "length L = n" "ID r = t"
       "\<forall>x \<in> set L. ID x < t" "\<forall>y \<in> set R. t < ID y" by blast
  have "entries (Delete db t) = L @ R"
    using assms(2) h(1,2) by (simp add: Delete_def slices_Delete_def)
  with h show ?thesis by blast
qed

lemma Delete_miss: "search db t = (n, False) \<Longrightarrow> Delete db t = db"
  by (simp add: Delete_def)

lemma Upsert_sorted:
  assumes "sorted_wrt (<) (map ID (entries db))"
  shows "sorted_wrt (<) (map ID (entries (Upsert db e)))"
proof (cases "search db (ID e)")
  case (Pair n ok)
  show ?thesis
  proof (cases ok)
    case True
    with Pair have "search db (ID e) = (n, True)" by simp
    from Upsert_hit[OF assms this] obtain L r R where
      h: "entries db = L @ r # R" "entries (Upsert db e) = L @ e # R" "ID r = ID e" by blast
    from assms show ?thesis unfolding h(1,2) by (simp add: h(3))
  next
    case False
    with Pair have "search db (ID e) = (n, False)" by simp
    from Upsert_miss[OF assms this] obtain L R where
      h: "entries db = L @ R" "entries (Upsert db e) = L @ e # R"
         "\<forall>x \<in> set L. ID x < ID e" "\<forall>y \<in> set R. ID e < ID y" by blast
    from assms h(3,4) show ?thesis unfolding h(1,2) by (auto simp: sorted_wrt_append)
  qed
qed

lemma Delete_sorted:
  assumes "sorted_wrt (<) (map ID (entries db))"
  shows "sorted_wrt (<) (map ID (entries (Delete db t)))"
proof (cases "search db t")
  case (Pair n ok)
  show ?thesis
  proof (cases ok)
    case True
    with Pair have "search db t = (n, True)" by simp
    from Delete_hit[OF assms this] obtain L r R where
      h: "entries db = L @ r # R" "entries (Delete db t) = L @ R" by blast
    from assms show ?thesis unfolding h(1,2) by (auto simp: sorted_wrt_append)
  next
    case False
    with Pair assms show ?thesis by (simp add: Delete_miss)
  qed
qed

lemma applyOp_sorted:
  "sorted_wrt (<) (map ID (entries db)) \<Longrightarrow> sorted_wrt (<) (map ID (entries (applyOp db x)))"
  by (cases x) (simp_all add: Upsert_sorted Delete_sorted)

lemma Get_hit: 
  assumes "sorted_wrt (<) (map ID (entries db))" "entries db = L @ r # R" "ID r = t"
  shows "Get db t = (Some r, True)"
proof (cases "search db t")
  case (Pair n ok)
  show ?thesis
  proof (cases ok)
    case True
    with Pair have s: "search db t = (n, True)" by simp
    from search_hit[OF assms(1) this] obtain L' r' R' where
      h: "entries db = L' @ r' # R'" "length L' = n" "ID r' = t" by blast
    have "distinct (map ID (entries db))"
      using assms(1) strict_sorted_iff by blast
    then have "inj_on ID (set (entries db))" by (simp add: distinct_map)
    moreover have "r \<in> set (entries db)" unfolding assms(2) by simp
    moreover have "r' \<in> set (entries db)" unfolding h(1) by simp
    ultimately have "r' = r" using assms(3) h(3) by (auto dest: inj_onD)
    moreover have "entries db ! n = r'" using h(1,2) by auto
    ultimately show ?thesis using s by (simp add: Get_def)
  next
    case False
    with Pair have "search db t = (n, False)" by simp
    from search_miss[OF assms(1) this] obtain L' R' where
      h: "entries db = L' @ R'" "\<forall>x \<in> set L'. ID x < t" "\<forall>y \<in> set R'. t < ID y" by blast
    have "r \<in> set L' \<union> set R'" using assms(2) h(1) by (metis in_set_conv_decomp set_append)
    with h(2,3) assms(3) show ?thesis by auto
  qed
qed

lemma Get_miss:
  assumes "t \<notin> ID ` set (entries db)"
  shows "Get db t = (None, False)"
proof -
  have "\<not> snd (search db t)" using assms search_found_mem by blast
  then show ?thesis by (cases "search db t") (simp add: Get_def)
qed

lemma Get_present:
  assumes "sorted_wrt (<) (map ID (entries db))" "x \<in> set (entries db)"
  shows "Get db (ID x) = (Some x, True)"
proof -
  from assms(2) obtain L R where "entries db = L @ x # R" by (auto dest: split_list)
  from Get_hit[OF assms(1) this] show ?thesis by simp
qed

text \<open>On sorted stores \<^verbatim>\<open>Get\<close> only depends on the set of entries with the identifier.\<close>

lemma Get_cong:
  assumes "sorted_wrt (<) (map ID (entries db))" "sorted_wrt (<) (map ID (entries db'))"
    and "\<And>x. ID x = t \<Longrightarrow> x \<in> set (entries db) \<longleftrightarrow> x \<in> set (entries db')"
  shows "Get db t = Get db' t"
proof (cases "t \<in> ID ` set (entries db)")
  case True
  then obtain x where x: "x \<in> set (entries db)" "ID x = t" by blast
  then have "x \<in> set (entries db')" using assms(3) by blast
  with x Get_present[OF assms(1) x(1)] Get_present[OF assms(2), of x] show ?thesis by simp
next
  case False
  then have "t \<notin> ID ` set (entries db')" using assms(3) by blast
  with False show ?thesis by (simp add: Get_miss)
qed

lemma set_Upsert:
  assumes "sorted_wrt (<) (map ID (entries db))"
  shows "set (entries (Upsert db e)) = insert e {x \<in> set (entries db). ID x \<noteq> ID e}"
proof (cases "search db (ID e)")
  case (Pair n ok)
  show ?thesis
  proof (cases ok)
    case True
    with Pair have "search db (ID e) = (n, True)" by simp
    from Upsert_hit[OF assms this] obtain L r R where
      h: "entries db = L @ r # R" "entries (Upsert db e) = L @ e # R" "ID r = ID e"
         "\<forall>x \<in> set L. ID x < ID e" "\<forall>y \<in> set R. ID e < ID y" by blast
    from h(3,4,5) show ?thesis unfolding h(1,2) by auto
  next
    case False
    with Pair have "search db (ID e) = (n, False)" by simp
    from Upsert_miss[OF assms this] obtain L R where
      h: "entries db = L @ R" "entries (Upsert db e) = L @ e # R"
         "\<forall>x \<in> set L. ID x < ID e" "\<forall>y \<in> set R. ID e < ID y" by blast
    from h(3,4) show ?thesis unfolding h(1,2) by auto
  qed
qed

lemma set_Delete:
  assumes "sorted_wrt (<) (map ID (entries db))"
  shows "set (entries (Delete db t)) = {x \<in> set (entries db). ID x \<noteq> t}"
proof (cases "search db t")
  case (Pair n ok)
  show ?thesis
  proof (cases ok)
    case True
    with Pair have "search db t = (n, True)" by simp
    from Delete_hit[OF assms this] obtain L r R where
      h: "entries db = L @ r # R" "entries (Delete db t) = L @ R" "ID r = t"
         "\<forall>x \<in> set L. ID x < t" "\<forall>y \<in> set R. t < ID y" by blast
    from h(3,4,5) show ?thesis unfolding h(1,2) by auto
  next
    case False
    with Pair have s: "search db t = (n, False)" by simp
    from search_miss[OF assms this] obtain L R where
      h: "entries db = L @ R" "\<forall>x \<in> set L. ID x < t" "\<forall>y \<in> set R. t < ID y" by blast
    have "Delete db t = db" using s by (rule Delete_miss)
    moreover have "set (entries db) = {x \<in> set (entries db). ID x \<noteq> t}"
      using h(2,3) unfolding h(1) by auto
    ultimately show ?thesis by simp
  qed
qed

lemma Get_Upsert:
  assumes "sorted_wrt (<) (map ID (entries db))"
  shows "Get (Upsert db e) t = (if t = ID e then (Some e, True) else Get db t)"
proof (cases "t = ID e")
  case True
  have "e \<in> set (entries (Upsert db e))" by (simp add: set_Upsert[OF assms])
  from Get_present[OF Upsert_sorted[OF assms] this] True show ?thesis by simp
next
  case False
  have "Get (Upsert db e) t = Get db t"
    by (rule Get_cong[OF Upsert_sorted[OF assms] assms]) (use False in \<open>auto simp: set_Upsert[OF assms]\<close>)
  with False show ?thesis by simp
qed

lemma Get_Delete:
  assumes "sorted_wrt (<) (map ID (entries db))"
  shows "Get (Delete db d) t = (if t = d then (None, False) else Get db t)"
proof (cases "t = d")
  case True
  have "t \<notin> ID ` set (entries (Delete db d))" using True by (auto simp: set_Delete[OF assms])
  then show ?thesis using True by (simp add: Get_miss)
next
  case False
  have "Get (Delete db d) t = Get db t"
    by (rule Get_cong[OF Delete_sorted[OF assms] assms]) (use False in \<open>auto simp: set_Delete[OF assms]\<close>)
  with False show ?thesis by simp
qed

lemma applyOps_sorted:
  "sorted_wrt (<) (map ID (entries db)) \<Longrightarrow> sorted_wrt (<) (map ID (entries (applyOps db ops)))"
  by (induction ops arbitrary: db) (simp_all add: applyOp_sorted)

lemma Get_applyOps:
  "sorted_wrt (<) (map ID (entries db)) \<Longrightarrow>
   Get (applyOps db ops) t =
     (case spec_lastOp t ops of
        None \<Rightarrow> Get db t
      | Some (OpUpsert e) \<Rightarrow> (Some e, True)
      | Some (OpDelete d) \<Rightarrow> (None, False))"
proof (induction ops arbitrary: db)
  case Nil
  then show ?case by simp
next
  case (Cons x xs)
  have sorted': "sorted_wrt (<) (map ID (entries (applyOp db x)))"
    using Cons.prems by (rule applyOp_sorted)
  show ?case
  proof (cases "spec_lastOp t xs")
    case (Some y)
    with Cons.IH[OF sorted'] show ?thesis by simp
  next
    case None
    with Cons.IH[OF sorted'] have "Get (applyOps db (x # xs)) t = Get (applyOp db x) t" by simp
    also have "\<dots> = (case (if opID x = t then Some x else None) of
        None \<Rightarrow> Get db t
      | Some (OpUpsert e) \<Rightarrow> (Some e, True)
      | Some (OpDelete d) \<Rightarrow> (None, False))"
      using Cons.prems by (cases x) (auto simp: Get_Upsert Get_Delete)
    finally show ?thesis using None by simp
  qed
qed

subsection \<open>The scan loop\<close>

lemma querySlice_loop_Cons:
  "querySlice_loop db v opt (e # es) rs =
     (if (case Predicate opt of None \<Rightarrow> False | Some p \<Rightarrow> \<not> p e) then querySlice_loop db v opt es rs
      else case Distance (distanceMetric db) v (Vector e) of
             Inl p \<Rightarrow> Inl p
           | Inr score \<Rightarrow>
               if score < MinimumScore opt then querySlice_loop db v opt es rs
               else querySlice_loop db v opt es (offer db opt rs \<lparr>Score = score, Entry = e\<rparr>))"
  by (simp add: offer_def Let_def split: sum.splits)

declare querySlice_loop.simps(2) [simp del]

lemma querySlice_loop_skip:
  "scorable db v opt e \<Longrightarrow> \<not> accepted db v opt e \<Longrightarrow>
   querySlice_loop db v opt (e # es) rs = querySlice_loop db v opt es rs"
  by (auto simp: querySlice_loop_Cons scorable_def accepted_def split: option.splits sum.splits)

lemma querySlice_loop_accept:
  "accepted db v opt e \<Longrightarrow>
   \<exists>score. Distance (distanceMetric db) v (Vector e) = Inr score \<and> \<not> score < MinimumScore opt \<and>
     (case Predicate opt of None \<Rightarrow> True | Some p \<Rightarrow> p e) \<and>
     querySlice_loop db v opt (e # es) rs =
       querySlice_loop db v opt es (offer db opt rs \<lparr>Score = score, Entry = e\<rparr>)"
  by (auto simp: querySlice_loop_Cons accepted_def split: option.splits sum.splits)

lemma querySlice_loop_panic:
  "\<not> scorable db v opt e \<Longrightarrow> \<exists>p. querySlice_loop db v opt (e # es) rs = Inl p"
  by (auto simp: querySlice_loop_Cons scorable_def split: option.splits sum.splits)

lemma accepted_scorable: "accepted db v opt e \<Longrightarrow> scorable db v opt e"
  by (auto simp: scorable_def accepted_def split: option.splits sum.splits)

text \<open>One offer: the position is inside the list, and the list never grows beyond \<^verbatim>\<open>TopK\<close>.\<close>

lemma offer_cases:
  assumes "length rs \<le> nat (TopK opt)"
  shows "offer db opt rs qr = rs \<and> length rs = nat (TopK opt) \<or>
   (\<exists>n. n = fst (BinarySearchFunc rs qr (querySlice_cmp db)) \<and> n \<le> length rs \<and>
      (if int (length rs) = TopK opt
       then n < length rs \<and> offer db opt rs qr = take n (butlast rs) @ qr # drop n (butlast rs)
       else length rs < nat (TopK opt) \<and> offer db opt rs qr = take n rs @ qr # drop n rs))"
proof -
  define n where "n = fst (BinarySearchFunc rs qr (querySlice_cmp db))"
  have le: "n \<le> length rs"
    unfolding n_def by (rule BinarySearchFunc_le_length)
  show ?thesis
  proof (cases "n = nat (TopK opt)")
    case True
    with le assms have "length rs = nat (TopK opt)" by simp
    moreover have "offer db opt rs qr = rs" using True by (simp add: offer_def n_def)
    ultimately show ?thesis by blast
  next
    case False
    show ?thesis
    proof (cases "int (length rs) = TopK opt")
      case True
      have del: "slices_Delete rs (length rs - 1) (length rs) = butlast rs"
        by (simp add: slices_Delete_def butlast_conv_take)
      have "n < length rs" using le False True by auto
      moreover have "offer db opt rs qr = take n (butlast rs) @ qr # drop n (butlast rs)"
        using False True del by (simp add: offer_def n_def[symmetric] slices_Insert_def)
      ultimately show ?thesis using True le n_def by auto
    next
      case neq: False
      have "length rs \<noteq> nat (TopK opt)"
      proof
        assume eq: "length rs = nat (TopK opt)"
        show False
        proof (cases "0 \<le> TopK opt")
          case True
          with eq neq show False by simp
        next
          case False
          with eq le have "n = nat (TopK opt)" by simp
          with \<open>n \<noteq> nat (TopK opt)\<close> show False by simp
        qed
      qed
      with assms have "length rs < nat (TopK opt)" by simp
      moreover have "offer db opt rs qr = take n rs @ qr # drop n rs"
        using False neq by (simp add: offer_def n_def[symmetric] slices_Insert_def)
      ultimately show ?thesis using neq le n_def by auto
    qed
  qed
qed

lemma offer_length:
  assumes "length rs \<le> nat (TopK opt)"
  shows "length (offer db opt rs qr) = min (nat (TopK opt)) (Suc (length rs))"
  using offer_cases[OF assms, of db qr]
  by (auto split: if_splits)

lemma offer_set:
  assumes "length rs \<le> nat (TopK opt)"
  shows "set (offer db opt rs qr) \<subseteq> insert qr (set rs)"
proof
  fix x assume x: "x \<in> set (offer db opt rs qr)"
  have sub: "y \<in> set (take n (butlast rs)) \<or> y \<in> set (drop n (butlast rs)) \<or>
             y \<in> set (take n rs) \<or> y \<in> set (drop n rs) \<Longrightarrow> y \<in> set rs" for y n
    by (blast dest: in_set_takeD in_set_dropD in_set_butlastD)
  from offer_cases[OF assms, of db qr] show "x \<in> insert qr (set rs)"
  proof
    assume "offer db opt rs qr = rs \<and> length rs = nat (TopK opt)"
    with x show ?thesis by simp
  next
    assume "\<exists>n. n = fst (BinarySearchFunc rs qr (querySlice_cmp db)) \<and> n \<le> length rs \<and>
      (if int (length rs) = TopK opt
       then n < length rs \<and> offer db opt rs qr = take n (butlast rs) @ qr # drop n (butlast rs)
       else length rs < nat (TopK opt) \<and> offer db opt rs qr = take n rs @ qr # drop n rs)"
    then obtain n where
      "offer db opt rs qr = take n (butlast rs) @ qr # drop n (butlast rs) \<or>
       offer db opt rs qr = take n rs @ qr # drop n rs"
      by (auto split: if_splits)
    with x have "x = qr \<or> x \<in> set (take n (butlast rs)) \<or> x \<in> set (drop n (butlast rs)) \<or>
             x \<in> set (take n rs) \<or> x \<in> set (drop n rs)" by auto
    with sub[of x n] show ?thesis by blast
  qed
qed

text \<open>While there is room, an offer adds the result and keeps all others.\<close>

lemma offer_mset:
  assumes "length rs < nat (TopK opt)"
  shows "mset (offer db opt rs qr) = add_mset qr (mset rs)"
proof -
  from assms have le: "length rs \<le> nat (TopK opt)" and ne: "int (length rs) \<noteq> TopK opt" by auto
  from offer_cases[OF le, of db qr] assms ne obtain n where
    "offer db opt rs qr = take n rs @ qr # drop n rs" by auto
  moreover have "mset (take n rs) + mset (drop n rs) = mset rs"
    by (metis append_take_drop_id mset_append)
  ultimately show ?thesis by (simp add: union_assoc[symmetric])
qed

lemma querySlice_cmp_neg:
  "querySlice_cmp db a b < 0 \<longleftrightarrow>
     (if BiggerIsCloser (distanceMetric db) then Score a < Score b else Score b < Score a)"
  by (auto simp: querySlice_cmp_def Let_def)

lemma insert_sorted_wrt:
  assumes "sorted_wrt R xs" "\<forall>x \<in> set (take n xs). R x q" "\<forall>y \<in> set (drop n xs). R q y"
  shows "sorted_wrt R (take n xs @ q # drop n xs)"
proof -
  have "sorted_wrt R (take n xs @ drop n xs)" using assms(1) by simp
  then have "sorted_wrt R (take n xs)" "sorted_wrt R (drop n xs)"
    "\<forall>x \<in> set (take n xs). \<forall>y \<in> set (drop n xs). R x y"
    unfolding sorted_wrt_append by blast+
  with assms(2,3) show ?thesis by (simp add: sorted_wrt_append)
qed

text \<open>
  On results kept in scan order the binary search returns the position that keeps the
  order: the results before it are strictly ahead of the new one.
\<close>

lemma scan_position:
  assumes "sorted_wrt (scanOrder db) rs"
  shows "(\<forall>x \<in> set (take (fst (BinarySearchFunc rs qr (querySlice_cmp db))) rs). scanOrder db x qr) \<and>
         (\<forall>y \<in> set (drop (fst (BinarySearchFunc rs qr (querySlice_cmp db))) rs). scanOrder db qr y)"
proof -
  let ?n = "fst (BinarySearchFunc rs qr (querySlice_cmp db))"
  have mono: "\<forall>k k'. k \<le> k' \<and> k' < length rs \<and> querySlice_cmp db (rs ! k') qr < 0 \<longrightarrow>
                querySlice_cmp db (rs ! k) qr < 0"
  proof (intro allI impI)
    fix k k' assume h: "k \<le> k' \<and> k' < length rs \<and> querySlice_cmp db (rs ! k') qr < 0"
    have ord: "scanOrder db (rs ! k) (rs ! k') \<or> k = k'"
    proof (cases "k = k'")
      case False
      with h have "k < k'" "k' < length rs" by simp_all
      from sorted_wrt_nth_less[OF assms this] show ?thesis by simp
    qed simp
    show "querySlice_cmp db (rs ! k) qr < 0"
    proof (cases "BiggerIsCloser (distanceMetric db)")
      case True
      with h have "Score (rs ! k') < Score qr" by (simp add: querySlice_cmp_neg)
      moreover from ord True have "Score (rs ! k) \<le> Score (rs ! k')" by (auto simp: scanOrder_def)
      ultimately have "Score (rs ! k) < Score qr" by (rule le_less_trans[rotated])
      with True show ?thesis by (simp add: querySlice_cmp_neg)
    next
      case False
      with h have "Score qr < Score (rs ! k')" by (simp add: querySlice_cmp_neg)
      moreover from ord False have "Score (rs ! k') \<le> Score (rs ! k)" by (auto simp: scanOrder_def)
      ultimately have "Score qr < Score (rs ! k)" by (rule less_le_trans)
      with False show ?thesis by (simp add: querySlice_cmp_neg)
    qed
  qed
  from BinarySearchFunc_partition[of rs "querySlice_cmp db" qr, OF mono]
  have part: "\<forall>k<?n. querySlice_cmp db (rs ! k) qr < 0"
    "\<forall>k. ?n \<le> k \<and> k < length rs \<longrightarrow> \<not> querySlice_cmp db (rs ! k) qr < 0"
    by blast+
  have "\<forall>x \<in> set (take ?n rs). scanOrder db x qr"
  proof
    fix x assume "x \<in> set (take ?n rs)"
    then obtain k where "k < ?n" "rs ! k = x" by (auto simp: in_set_take_nth)
    with part(1) have "querySlice_cmp db x qr < 0" by blast
    then show "scanOrder db x qr"
      by (auto simp: querySlice_cmp_neg scanOrder_def split: if_splits)
  qed
  moreover have "\<forall>y \<in> set (drop ?n rs). scanOrder db qr y"
  proof
    fix y assume "y \<in> set (drop ?n rs)"
    then obtain k where "?n \<le> k" "k < length rs" "rs ! k = y" by (auto simp: in_set_drop_nth)
    with part(2) have "\<not> querySlice_cmp db y qr < 0" by blast
    then show "scanOrder db qr y"
      by (auto simp: querySlice_cmp_neg scanOrder_def split: if_splits)
  qed
  ultimately show ?thesis by blast
qed

lemma offer_sorted:
  assumes "length rs \<le> nat (TopK opt)" "sorted_wrt (scanOrder db) rs"
  shows "sorted_wrt (scanOrder db) (offer db opt rs qr)"
proof -
  let ?n = "fst (BinarySearchFunc rs qr (querySlice_cmp db))"
  note pos = scan_position[OF assms(2), of qr]
  from offer_cases[OF assms(1), of db qr] show ?thesis
  proof
    assume "offer db opt rs qr = rs \<and> length rs = nat (TopK opt)"
    with assms(2) show ?thesis by simp
  next
    assume "\<exists>n. n = ?n \<and> n \<le> length rs \<and>
      (if int (length rs) = TopK opt
       then n < length rs \<and> offer db opt rs qr = take n (butlast rs) @ qr # drop n (butlast rs)
       else length rs < nat (TopK opt) \<and> offer db opt rs qr = take n rs @ qr # drop n rs)"
    then have c: "(?n < length rs \<and> offer db opt rs qr = take ?n (butlast rs) @ qr # drop ?n (butlast rs)) \<or>
       offer db opt rs qr = take ?n rs @ qr # drop ?n rs"
      by (auto split: if_splits)
    then show ?thesis
    proof
      assume full: "?n < length rs \<and> offer db opt rs qr = take ?n (butlast rs) @ qr # drop ?n (butlast rs)"
      have "sorted_wrt (scanOrder db) (butlast rs)"
        using assms(2) by (simp add: butlast_conv_take sorted_wrt_take)
      moreover have "take ?n (butlast rs) = take ?n rs"
      proof -
        from full have "?n < length rs" by (rule conjunct1)
        then have "min ?n (length rs - 1) = ?n" by arith
        then show ?thesis by (simp only: butlast_conv_take take_take)
      qed
      moreover have "set (drop ?n (butlast rs)) \<subseteq> set (drop ?n rs)"
        by (simp add: butlast_conv_take drop_take set_take_subset)
      ultimately have "sorted_wrt (scanOrder db) (take ?n (butlast rs) @ qr # drop ?n (butlast rs))"
        using pos by (intro insert_sorted_wrt) auto
      with full show ?thesis by simp
    next
      assume "offer db opt rs qr = take ?n rs @ qr # drop ?n rs"
      moreover have "sorted_wrt (scanOrder db) (take ?n rs @ qr # drop ?n rs)"
        using pos assms(2) by (intro insert_sorted_wrt) auto
      ultimately show ?thesis by simp
    qed
  qed
qed

subsection \<open>Invariants of the scan loop\<close>

text \<open>A property of the results that every offer of an accepted entry keeps holds at the end.\<close>

lemma querySlice_loop_invariant:
  assumes "querySlice_loop db v opt es rs = Inr rs'" "I rs"
    and "\<And>rs e score. I rs \<Longrightarrow> e \<in> set es \<Longrightarrow> accepted db v opt e \<Longrightarrow>
           Distance (distanceMetric db) v (Vector e) = Inr score \<Longrightarrow>
           I (offer db opt rs \<lparr>Score = score, Entry = e\<rparr>)"
  shows "I rs'"
  using assms
proof (induction es arbitrary: rs)
  case Nil
  then show ?case by simp
next
  case (Cons e es)
  have step: "\<And>rs e score. I rs \<Longrightarrow> e \<in> set es \<Longrightarrow> accepted db v opt e \<Longrightarrow>
           Distance (distanceMetric db) v (Vector e) = Inr score \<Longrightarrow>
           I (offer db opt rs \<lparr>Score = score, Entry = e\<rparr>)"
    using Cons.prems(3) by simp
  show ?case
  proof (cases "scorable db v opt e")
    case False
    from querySlice_loop_panic[OF this, of es rs] Cons.prems(1) show ?thesis by auto
  next
    case True
    show ?thesis
    proof (cases "accepted db v opt e")
      case False
      with True Cons.prems(1) have "querySlice_loop db v opt es rs = Inr rs'"
        by (simp add: querySlice_loop_skip)
      from Cons.IH[OF this Cons.prems(2) step] show ?thesis .
    next
      case acc: True
      from querySlice_loop_accept[OF acc, of es rs] obtain score where
        s: "Distance (distanceMetric db) v (Vector e) = Inr score"
           "querySlice_loop db v opt (e # es) rs =
              querySlice_loop db v opt es (offer db opt rs \<lparr>Score = score, Entry = e\<rparr>)" by blast
      have "I (offer db opt rs \<lparr>Score = score, Entry = e\<rparr>)"
        using Cons.prems(3)[OF Cons.prems(2) _ acc s(1)] by simp
      moreover have "querySlice_loop db v opt es (offer db opt rs \<lparr>Score = score, Entry = e\<rparr>) = Inr rs'"
        using s(2) Cons.prems(1) by simp
      ultimately show ?thesis using Cons.IH step by blast
    qed
  qed
qed

lemma querySlice_loop_length:
  assumes "querySlice_loop db v opt es rs = Inr rs'" "length rs \<le> nat (TopK opt)"
  shows "length rs' \<le> nat (TopK opt)"
  by (rule querySlice_loop_invariant[OF assms(1), where I = "\<lambda>rs. length rs \<le> nat (TopK opt)"])
     (simp_all add: assms(2) offer_length)

lemma querySlice_loop_sorted:
  assumes "querySlice_loop db v opt es rs = Inr rs'" "length rs \<le> nat (TopK opt)"
    "sorted_wrt (scanOrder db) rs"
  shows "sorted_wrt (scanOrder db) rs'"
proof -
  have "length rs' \<le> nat (TopK opt) \<and> sorted_wrt (scanOrder db) rs'"
    by (rule querySlice_loop_invariant[OF assms(1),
          where I = "\<lambda>rs. length rs \<le> nat (TopK opt) \<and> sorted_wrt (scanOrder db) rs"])
       (simp_all add: assms(2,3) offer_length offer_sorted)
  then show ?thesis by simp
qed

text \<open>Every result is an accepted entry of the partition with the score the metric gave it.\<close>

lemma querySlice_loop_sound:
  assumes "querySlice_loop db v opt es [] = Inr rs'" "0 \<le> TopK opt"
  shows "\<forall>r \<in> set rs'. Entry r \<in> set es \<and> accepted db v opt (Entry r) \<and>
           Distance (distanceMetric db) v (Vector (Entry r)) = Inr (Score r)"
proof -
  let ?Q = "\<lambda>r. Entry r \<in> set es \<and> accepted db v opt (Entry r) \<and>
           Distance (distanceMetric db) v (Vector (Entry r)) = Inr (Score r)"
  have "length rs' \<le> nat (TopK opt) \<and> (\<forall>r \<in> set rs'. ?Q r)"
  proof (rule querySlice_loop_invariant[OF assms(1),
          where I = "\<lambda>rs. length rs \<le> nat (TopK opt) \<and> (\<forall>r \<in> set rs. ?Q r)"])
    show "length [] \<le> nat (TopK opt) \<and> (\<forall>r \<in> set []. ?Q r)" by simp
  next
    fix rs :: "('a, 'b) QueryResult list" and e score
    assume h: "length rs \<le> nat (TopK opt) \<and> (\<forall>r \<in> set rs. ?Q r)" "e \<in> set es"
      "accepted db v opt e" "Distance (distanceMetric db) v (Vector e) = Inr score"
    let ?qr = "\<lparr>Score = score, Entry = e\<rparr>"
    have "?Q ?qr" using h(2,3,4) by simp
    moreover have "set (offer db opt rs ?qr) \<subseteq> insert ?qr (set rs)"
      using h(1) by (simp add: offer_set)
    ultimately have "\<forall>r \<in> set (offer db opt rs ?qr). ?Q r" using h(1) by blast
    then show "length (offer db opt rs ?qr) \<le> nat (TopK opt) \<and> (\<forall>r \<in> set (offer db opt rs ?qr). ?Q r)"
      using h(1) by (simp add: offer_length)
  qed
  then show ?thesis by simp
qed

text \<open>The scan keeps exactly as many results as \<^verbatim>\<open>TopK\<close> allows.\<close>

lemma querySlice_loop_count:
  assumes "querySlice_loop db v opt es rs = Inr rs'" "length rs \<le> nat (TopK opt)"
  shows "length rs' = min (nat (TopK opt)) (length rs + length (filter (accepted db v opt) es))"
  using assms
proof (induction es arbitrary: rs)
  case Nil
  then show ?case by simp
next
  case (Cons e es)
  show ?case
  proof (cases "scorable db v opt e")
    case False
    from querySlice_loop_panic[OF this, of es rs] Cons.prems(1) show ?thesis by auto
  next
    case True
    show ?thesis
    proof (cases "accepted db v opt e")
      case False
      with True Cons.prems(1) have "querySlice_loop db v opt es rs = Inr rs'"
        by (simp add: querySlice_loop_skip)
      from Cons.IH[OF this Cons.prems(2)] False show ?thesis by simp
    next
      case acc: True
      from querySlice_loop_accept[OF acc, of es rs] obtain score where
        s: "querySlice_loop db v opt (e # es) rs =
              querySlice_loop db v opt es (offer db opt rs \<lparr>Score = score, Entry = e\<rparr>)" by blast
      let ?rs = "offer db opt rs \<lparr>Score = score, Entry = e\<rparr>"
      have len: "length ?rs = min (nat (TopK opt)) (Suc (length rs))"
        using Cons.prems(2) by (rule offer_length)
      then have "length ?rs \<le> nat (TopK opt)" by simp
      moreover have "querySlice_loop db v opt es ?rs = Inr rs'" using s Cons.prems(1) by simp
      ultimately have "length rs' = min (nat (TopK opt)) (length ?rs + length (filter (accepted db v opt) es))"
        using Cons.IH by blast
      with len acc show ?thesis by (simp add: min_def)
    qed
  qed
qed

text \<open>While \<^verbatim>\<open>TopK\<close> leaves room for all of them, the scan keeps every accepted entry.\<close>

lemma querySlice_loop_mset:
  assumes "querySlice_loop db v opt es rs = Inr rs'"
    "length rs + length (filter (accepted db v opt) es) \<le> nat (TopK opt)"
  shows "mset (map Entry rs') = mset (map Entry rs) + mset (filter (accepted db v opt) es)"
  using assms
proof (induction es arbitrary: rs)
  case Nil
  then show ?case by simp
next
  case (Cons e es)
  show ?case
  proof (cases "scorable db v opt e")
    case False
    from querySlice_loop_panic[OF this, of es rs] Cons.prems(1) show ?thesis by auto
  next
    case True
    show ?thesis
    proof (cases "accepted db v opt e")
      case False
      with True Cons.prems(1) have "querySlice_loop db v opt es rs = Inr rs'"
        by (simp add: querySlice_loop_skip)
      moreover have "length rs + length (filter (accepted db v opt) es) \<le> nat (TopK opt)"
        using Cons.prems(2) False by simp
      ultimately show ?thesis using Cons.IH False by simp
    next
      case acc: True
      from querySlice_loop_accept[OF acc, of es rs] obtain score where
        s: "querySlice_loop db v opt (e # es) rs =
              querySlice_loop db v opt es (offer db opt rs \<lparr>Score = score, Entry = e\<rparr>)" by blast
      let ?rs = "offer db opt rs \<lparr>Score = score, Entry = e\<rparr>"
      have room: "length rs < nat (TopK opt)" using Cons.prems(2) acc by simp
      then have m: "mset ?rs = add_mset \<lparr>Score = score, Entry = e\<rparr> (mset rs)" by (rule offer_mset)
      then have "size (mset ?rs) = Suc (length rs)" by simp
      then have "length ?rs = Suc (length rs)" by simp
      then have "length ?rs + length (filter (accepted db v opt) es) \<le> nat (TopK opt)"
        using Cons.prems(2) acc by simp
      moreover have "querySlice_loop db v opt es ?rs = Inr rs'" using s Cons.prems(1) by simp
      ultimately have "mset (map Entry rs') = mset (map Entry ?rs) + mset (filter (accepted db v opt) es)"
        using Cons.IH by blast
      moreover have "mset (map Entry ?rs) = add_mset e (mset (map Entry rs))"
        using m by (metis QueryResult.select_convs(2) image_mset_add_mset mset_map)
      ultimately show ?thesis using acc by simp
    qed
  qed
qed

text \<open>The scan panics only where the metric does.\<close>

lemma querySlice_loop_total:
  assumes "\<forall>e \<in> set es. scorable db v opt e"
  shows "\<exists>rs'. querySlice_loop db v opt es rs = Inr rs'"
  using assms
proof (induction es arbitrary: rs)
  case Nil
  then show ?case by simp
next
  case (Cons e es)
  then have sc: "scorable db v opt e" and rest: "\<forall>e \<in> set es. scorable db v opt e" by simp_all
  show ?case
  proof (cases "accepted db v opt e")
    case False
    with sc Cons.IH[OF rest] show ?thesis by (simp add: querySlice_loop_skip)
  next
    case True
    from querySlice_loop_accept[OF True, of es rs] Cons.IH[OF rest] show ?thesis by auto
  qed
qed

lemma querySlice_loop_panics:
  assumes "\<exists>e \<in> set es. \<not> scorable db v opt e"
  shows "\<exists>p. querySlice_loop db v opt es rs = Inl p"
  using assms
proof (induction es arbitrary: rs)
  case Nil
  then show ?case by simp
next
  case (Cons e es)
  show ?case
  proof (cases "scorable db v opt e")
    case False
    then show ?thesis by (rule querySlice_loop_panic)
  next
    case True
    with Cons.prems have rest: "\<exists>e \<in> set es. \<not> scorable db v opt e" by simp
    show ?thesis
    proof (cases "accepted db v opt e")
      case False
      with True Cons.IH[OF rest] show ?thesis by (simp add: querySlice_loop_skip)
    next
      case acc: True
      from querySlice_loop_accept[OF acc, of es rs] Cons.IH[OF rest] show ?thesis by auto
    qed
  qed
qed

subsection \<open>The merge\<close>

lemma querySlice_merge_length: "length (querySlice_merge l r) = length l + length r"
  by (induction l r rule: querySlice_merge.induct) simp_all

lemma querySlice_merge_mset: "mset (querySlice_merge l r) = mset l + mset r"
  by (induction l r rule: querySlice_merge.induct) simp_all

lemma querySlice_merge_set: "set (querySlice_merge l r) = set l \<union> set r"
  by (induction l r rule: querySlice_merge.induct) auto

text \<open>The merge compares with \<open>\<ge>\<close> whatever the metric: it keeps descending scores descending.\<close>

lemma querySlice_merge_descending:
  "sorted_wrt (\<lambda>a b. Score b \<le> Score a) l \<Longrightarrow> sorted_wrt (\<lambda>a b. Score b \<le> Score a) r \<Longrightarrow>
   sorted_wrt (\<lambda>a b. Score b \<le> Score a) (querySlice_merge l r)"
proof (induction l r rule: querySlice_merge.induct)
  case (4 l leftResult r rightResult)
  show ?case
  proof (cases "Score r \<le> Score l")
    case True
    have "sorted_wrt (\<lambda>a b. Score b \<le> Score a) (querySlice_merge leftResult (r # rightResult))"
      using 4 True by simp
    moreover have "\<forall>x \<in> set leftResult \<union> set (r # rightResult). Score x \<le> Score l"
      using "4.prems" True by auto
    ultimately show ?thesis using True by (simp add: querySlice_merge_set)
  next
    case False
    have "sorted_wrt (\<lambda>a b. Score b \<le> Score a) (querySlice_merge (l # leftResult) rightResult)"
      using 4 False by simp
    moreover have "\<forall>x \<in> set (l # leftResult) \<union> set rightResult. Score x \<le> Score r"
      using "4.prems" False by auto
    ultimately show ?thesis using False by (simp add: querySlice_merge_set)
  qed
qed (simp_all add: querySlice_merge_set)

subsection \<open>The recursion of querySlice\<close>

lemma querySlice_leaf_case:
  "length es \<le> threshold \<Longrightarrow> querySlice db es v opt = querySlice_leaf db es v opt"
  by (subst querySlice.simps) simp

lemma querySlice_split_case:
  "threshold < length es \<Longrightarrow>
   querySlice db es v opt =
     (case querySlice db (take (length es div 2) es) v opt of
        Inl p \<Rightarrow> Inl p
      | Inr leftResult \<Rightarrow>
          (case querySlice db (drop (length es div 2) es) v opt of
             Inl p \<Rightarrow> Inl p
           | Inr rightResult \<Rightarrow> Inr (querySlice_merge leftResult rightResult)))"
  by (subst querySlice.simps) (simp add: Let_def)

text \<open>
  Induction over the partitions of a query that returns: a property of partition and result
  that holds at the leaves and is kept by the merge holds of the whole.
\<close>

lemma querySlice_result_induct [consumes 1, case_names leaf node]:
  assumes "querySlice db es v opt = Inr rs"
    and leaf: "\<And>es rs. length es \<le> threshold \<Longrightarrow> querySlice_leaf db es v opt = Inr rs \<Longrightarrow> P es rs"
    and node: "\<And>es l r. threshold < length es \<Longrightarrow>
        querySlice db (take (length es div 2) es) v opt = Inr l \<Longrightarrow>
        querySlice db (drop (length es div 2) es) v opt = Inr r \<Longrightarrow>
        P (take (length es div 2) es) l \<Longrightarrow> P (drop (length es div 2) es) r \<Longrightarrow>
        P es (querySlice_merge l r)"
  shows "P es rs"
  using assms(1)
proof (induction es arbitrary: rs rule: measure_induct_rule[where f = length])
  case (less es)
  show ?case
  proof (cases "threshold < length es")
    case False
    then have small: "length es \<le> threshold" by simp
    with less.prems have "querySlice_leaf db es v opt = Inr rs" by (simp add: querySlice_leaf_case)
    with small show ?thesis by (rule leaf)
  next
    case True
    then have big: "2 \<le> length es" by (simp add: threshold_def)
    from less.prems True obtain l r where
      lr: "querySlice db (take (length es div 2) es) v opt = Inr l"
          "querySlice db (drop (length es div 2) es) v opt = Inr r"
          "rs = querySlice_merge l r"
      by (auto simp: querySlice_split_case split: sum.splits)
    have "length (take (length es div 2) es) < length es" using big by simp
    then have "P (take (length es div 2) es) l" using lr(1) by (rule less.IH)
    moreover have "length (drop (length es div 2) es) < length es" using big by simp
    then have "P (drop (length es div 2) es) r" using lr(2) by (rule less.IH)
    ultimately show ?thesis using node[OF True lr(1,2)] lr(3) by simp
  qed
qed

subsection \<open>Properties of every query that returns\<close>

lemma querySlice_leaf_Inr:
  "querySlice_leaf db es v opt = Inr rs \<Longrightarrow>
   0 \<le> TopK opt \<and> TopK opt \<le> makeslice_maxCap \<and> querySlice_loop db v opt es [] = Inr rs"
  by (simp add: querySlice_leaf_def split: if_splits)

lemma filter_take_drop:
  "filter P (take n xs) @ filter P (drop n xs) = filter P xs"
  by (metis append_take_drop_id filter_append)

lemma querySlice_sound:
  assumes "querySlice db es v opt = Inr rs"
  shows "\<forall>r \<in> set rs. Entry r \<in> set es \<and> accepted db v opt (Entry r) \<and>
           Distance (distanceMetric db) v (Vector (Entry r)) = Inr (Score r)"
  using assms
proof (induction rule: querySlice_result_induct)
  case (leaf es rs)
  from querySlice_leaf_Inr[OF leaf(2)] show ?case
    using querySlice_loop_sound[of db v opt es rs] by blast
next
  case (node es l r)
  have "set (take (length es div 2) es) \<subseteq> set es" "set (drop (length es div 2) es) \<subseteq> set es"
    by (simp_all add: set_take_subset set_drop_subset)
  with node(4,5) show ?case by (auto simp: querySlice_merge_set)
qed

lemma querySlice_length_accepted:
  assumes "querySlice db es v opt = Inr rs"
  shows "length rs \<le> length (filter (accepted db v opt) es)"
  using assms
proof (induction rule: querySlice_result_induct)
  case (leaf es rs)
  from querySlice_leaf_Inr[OF leaf(2)] have "querySlice_loop db v opt es [] = Inr rs" by simp
  from querySlice_loop_count[OF this] show ?case by simp
next
  case (node es l r)
  have "length (filter (accepted db v opt) (take (length es div 2) es)) +
        length (filter (accepted db v opt) (drop (length es div 2) es)) =
        length (filter (accepted db v opt) es)"
    by (metis filter_take_drop length_append)
  with node(4,5) show ?case by (simp add: querySlice_merge_length)
qed

text \<open>A single partition keeps exactly \<^verbatim>\<open>min(TopK, accepted)\<close> results.\<close>

lemma querySlice_leaf_count:
  assumes "length es \<le> threshold" "querySlice db es v opt = Inr rs"
  shows "length rs = min (nat (TopK opt)) (length (filter (accepted db v opt) es))"
proof -
  from assms have "querySlice_leaf db es v opt = Inr rs" by (simp add: querySlice_leaf_case)
  from querySlice_leaf_Inr[OF this] have "querySlice_loop db v opt es [] = Inr rs" by simp
  from querySlice_loop_count[OF this] show ?thesis by simp
qed

lemma querySlice_descending:
  assumes "querySlice db es v opt = Inr rs" "\<not> BiggerIsCloser (distanceMetric db)"
  shows "sorted_wrt (\<lambda>a b. Score b \<le> Score a) rs"
  using assms(1)
proof (induction rule: querySlice_result_induct)
  case (leaf es rs)
  from querySlice_leaf_Inr[OF leaf(2)] have "querySlice_loop db v opt es [] = Inr rs" by simp
  from querySlice_loop_sorted[OF this] have "sorted_wrt (scanOrder db) rs" by simp
  moreover have "scanOrder db = (\<lambda>a b. Score b \<le> Score a)"
    using assms(2) by (simp add: scanOrder_def fun_eq_iff)
  ultimately show ?case by simp
next
  case (node es l r)
  then show ?case by (simp add: querySlice_merge_descending)
qed

text \<open>In one partition the results are in scan order, whatever the metric's direction.\<close>

lemma querySlice_leaf_scanOrder:
  assumes "length es \<le> threshold" "querySlice db es v opt = Inr rs"
  shows "sorted_wrt (scanOrder db) rs"
proof -
  from assms have "querySlice_leaf db es v opt = Inr rs" by (simp add: querySlice_leaf_case)
  from querySlice_leaf_Inr[OF this] have "querySlice_loop db v opt es [] = Inr rs" by simp
  from querySlice_loop_sorted[OF this] show ?thesis by simp
qed

lemma querySlice_mset:
  assumes "querySlice db es v opt = Inr rs"
  shows "int (length (filter (accepted db v opt) es)) \<le> TopK opt \<longrightarrow>
         mset (map Entry rs) = mset (filter (accepted db v opt) es)"
  using assms
proof (induction rule: querySlice_result_induct)
  case (leaf es rs)
  from querySlice_leaf_Inr[OF leaf(2)] have l: "querySlice_loop db v opt es [] = Inr rs" by simp
  show ?case
  proof
    assume "int (length (filter (accepted db v opt) es)) \<le> TopK opt"
    then have "length [] + length (filter (accepted db v opt) es) \<le> nat (TopK opt)" by simp
    from querySlice_loop_mset[OF l this] show "mset (map Entry rs) = mset (filter (accepted db v opt) es)"
      by simp
  qed
next
  case (node es l r)
  let ?h = "length es div 2"
  show ?case
  proof
    assume room: "int (length (filter (accepted db v opt) es)) \<le> TopK opt"
    have sum: "length (filter (accepted db v opt) (take ?h es)) +
        length (filter (accepted db v opt) (drop ?h es)) =
        length (filter (accepted db v opt) es)"
      by (metis filter_take_drop length_append)
    with room have "int (length (filter (accepted db v opt) (take ?h es))) \<le> TopK opt"
      "int (length (filter (accepted db v opt) (drop ?h es))) \<le> TopK opt" by linarith+
    with node(4,5) have "mset (map Entry l) = mset (filter (accepted db v opt) (take ?h es))"
      "mset (map Entry r) = mset (filter (accepted db v opt) (drop ?h es))" by simp_all
    moreover have "mset (filter (accepted db v opt) (take ?h es)) + mset (filter (accepted db v opt) (drop ?h es))
        = mset (filter (accepted db v opt) es)"
      by (metis filter_take_drop mset_append)
    ultimately show "mset (map Entry (querySlice_merge l r)) = mset (filter (accepted db v opt) es)"
      by (simp add: querySlice_merge_mset)
  qed
qed

lemma querySlice_TopK_zero:
  assumes "querySlice db es v opt = Inr rs" "TopK opt = 0"
  shows "rs = []"
  using assms(1)
proof (induction rule: querySlice_result_induct)
  case (leaf es rs)
  from querySlice_leaf_Inr[OF leaf(2)] have "querySlice_loop db v opt es [] = Inr rs" by simp
  from querySlice_loop_count[OF this] assms(2) show ?case by simp
next
  case (node es l r)
  then show ?case by simp
qed

text \<open>
  A query returns when \<^verbatim>\<open>make\<close> accepts \<^verbatim>\<open>TopK\<close> and the metric returns on every entry scanned.
\<close>

lemma querySlice_total:
  assumes "0 \<le> TopK opt" "TopK opt \<le> makeslice_maxCap" "\<forall>e \<in> set es. scorable db v opt e"
  shows "\<exists>rs. querySlice db es v opt = Inr rs"
  using assms(3)
proof (induction es rule: measure_induct_rule[where f = length])
  case (less es)
  show ?case
  proof (cases "threshold < length es")
    case False
    with querySlice_loop_total[OF less.prems, of "[]"] assms(1,2) show ?thesis
      by (simp add: querySlice_leaf_case querySlice_leaf_def)
  next
    case True
    let ?h = "length es div 2"
    from True have big: "2 \<le> length es" by (simp add: threshold_def)
    have "length (take ?h es) < length es" using big by simp
    moreover have "\<forall>e \<in> set (take ?h es). scorable db v opt e"
      using less.prems by (auto dest: in_set_takeD)
    ultimately obtain l where l: "querySlice db (take ?h es) v opt = Inr l"
      using less.IH by blast
    have "length (drop ?h es) < length es" using big by simp
    moreover have "\<forall>e \<in> set (drop ?h es). scorable db v opt e"
      using less.prems by (auto dest: in_set_dropD)
    ultimately obtain r where r: "querySlice db (drop ?h es) v opt = Inr r"
      using less.IH by blast
    from True l r show ?thesis by (simp add: querySlice_split_case)
  qed
qed

text \<open>A query panics, whatever the store, when \<^verbatim>\<open>make\<close> does not accept \<^verbatim>\<open>TopK\<close>.\<close>

lemma querySlice_TopK_out_of_range:
  assumes "TopK opt < 0 \<or> makeslice_maxCap < TopK opt"
  shows "querySlice db es v opt = Inl MakeSliceCapOutOfRange"
proof (induction es rule: measure_induct_rule[where f = length])
  case (less es)
  show ?case
  proof (cases "threshold < length es")
    case False
    with assms show ?thesis by (simp add: querySlice_leaf_case querySlice_leaf_def)
  next
    case True
    then have "2 \<le> length es" by (simp add: threshold_def)
    then have "length (take (length es div 2) es) < length es" by simp
    from less.IH[OF this] True show ?thesis by (simp add: querySlice_split_case)
  qed
qed

subsection \<open>When the metrics panic\<close>

lemma DotProduct_loop_returns:
  "\<forall>k \<in> set ks. k < length b \<Longrightarrow> \<exists>s. DotProduct_loop a b ks acc = Inr s"
  by (induction ks arbitrary: acc) simp_all

lemma DotProduct_loop_panics:
  "\<exists>k \<in> set ks. \<not> k < length b \<Longrightarrow> DotProduct_loop a b ks acc = Inl IndexOutOfRange"
  by (induction ks arbitrary: acc) auto

lemma CosineSimilarity_loop_returns:
  "\<forall>k \<in> set ks. k < length b \<Longrightarrow> \<exists>s. CosineSimilarity_loop a b ks acc = Inr s"
proof (induction ks arbitrary: acc)
  case (Cons k ks)
  then show ?case by (cases acc) simp
qed auto

lemma CosineSimilarity_loop_panics:
  "\<exists>k \<in> set ks. \<not> k < length b \<Longrightarrow> CosineSimilarity_loop a b ks acc = Inl IndexOutOfRange"
proof (induction ks arbitrary: acc)
  case (Cons k ks)
  then show ?case by (cases acc) auto
qed simp

text \<open>
  Both metrics panic exactly when the first vector is the longer one. When it is the shorter
  one they return a score computed from a prefix of the second vector.
\<close>

lemma DotProduct_Distance_returns_iff:
  "(\<exists>s. DotProduct_Distance a b = Inr s) \<longleftrightarrow> length a \<le> length b"
proof (cases "length a \<le> length b")
  case True
  then have "\<forall>k \<in> set [0..<length a]. k < length b" by simp
  from DotProduct_loop_returns[OF this] True show ?thesis by (simp add: DotProduct_Distance_def)
next
  case False
  then have "\<exists>k \<in> set [0..<length a]. \<not> k < length b" by (auto intro: bexI[of _ "length b"])
  from DotProduct_loop_panics[OF this] False show ?thesis by (simp add: DotProduct_Distance_def)
qed

lemma CosineSimilarity_Distance_returns_iff:
  "(\<exists>s. CosineSimilarity_Distance a b = Inr s) \<longleftrightarrow> length a \<le> length b"
proof (cases "length a \<le> length b")
  case True
  then have "\<forall>k \<in> set [0..<length a]. k < length b" by simp
  from CosineSimilarity_loop_returns[OF this, of a "(0, 0, 0)"] True show ?thesis
    by (auto simp: CosineSimilarity_Distance_def)
next
  case False
  then have "\<exists>k \<in> set [0..<length a]. \<not> k < length b" by (auto intro: bexI[of _ "length b"])
  from CosineSimilarity_loop_panics[OF this] False show ?thesis
    by (simp add: CosineSimilarity_Distance_def)
qed

subsection \<open>A store of two partitions\<close>

text \<open>
  Above the threshold each half keeps up to \<^verbatim>\<open>TopK\<close> results and the merge returns them all.
\<close>

lemma querySlice_two_partitions:
  assumes "threshold < length es" "length es \<le> 2 * threshold" "querySlice db es v opt = Inr rs"
  shows "length rs =
           min (nat (TopK opt)) (length (filter (accepted db v opt) (take (length es div 2) es))) +
           min (nat (TopK opt)) (length (filter (accepted db v opt) (drop (length es div 2) es)))"
proof -
  let ?h = "length es div 2"
  from assms(1,3) obtain l r where
    lr: "querySlice db (take ?h es) v opt = Inr l" "querySlice db (drop ?h es) v opt = Inr r"
        "rs = querySlice_merge l r"
    by (auto simp: querySlice_split_case split: sum.splits)
  have "length (take ?h es) \<le> threshold" "length (drop ?h es) \<le> threshold"
    using assms(2) by simp_all
  from querySlice_leaf_count[OF this(1) lr(1)] querySlice_leaf_count[OF this(2) lr(2)] lr(3)
  show ?thesis by (simp add: querySlice_merge_length)
qed

lemma length_manyEntries: "length (manyEntries n) = n"
  by (simp add: manyEntries_def)

lemma manyEntries_accepted:
  assumes "e \<in> set (manyEntries n)" "distanceMetric db = CosineSimilarity"
  shows "accepted db [1, 0] \<lparr>TopK = k, MinimumScore = 0, Predicate = None\<rparr> e"
proof -
  from assms(1) have "Vector e = [1, 0]" by (auto simp: manyEntries_def)
  then show ?thesis
    by (simp add: accepted_def assms(2) CosineSimilarity_def CosineSimilarity_Distance_def)
qed

lemma manyEntries_sorted: "sorted_wrt (<) (map ID (manyEntries n))"
proof -
  have "sorted_wrt (<) (map (\<lambda>i. replicate (Suc i) CHR ''a'') [0..<n])"
  proof (induction n)
    case (Suc n)
    have "replicate (Suc i) CHR ''a'' < replicate (Suc n) CHR ''a''" if "i < n" for i
      using that
    proof (induction i arbitrary: n)
      case 0
      then show ?case by (cases n) simp_all
    next
      case (Suc i)
      then show ?case by (cases n) simp_all
    qed
    with Suc show ?case by (simp add: sorted_wrt_append)
  qed simp
  then show ?thesis by (simp add: manyEntries_def comp_def)
qed

section \<open>The claims\<close>

text \<open>Unfolding rules that evaluate a query or a lookup on a concrete store.\<close>

lemmas eval_store = Get_def Upsert_def Delete_def search_def search_cmp_def BinarySearchFunc_def
  BinarySearchFunc_loop_stop BinarySearchFunc_loop_left BinarySearchFunc_loop_right
  slices_Insert_def slices_Delete_def NewVectorDB_def Let_def

lemmas eval_query = Query_def querySlice_leaf_case threshold_def querySlice_leaf_def
  makeslice_maxCap_def
  querySlice_loop_Cons offer_def querySlice_cmp_def BinarySearchFunc_def
  BinarySearchFunc_loop_stop BinarySearchFunc_loop_left BinarySearchFunc_loop_right
  slices_Insert_def slices_Delete_def NewVectorDB_def Let_def
  CosineSimilarity_def CosineSimilarity_Distance_def DotProduct_def DotProduct_Distance_def
  axisA_def axisB_def axisC_def

subsection \<open>C1: the order of the results\<close>

text \<open>
  Claim C1 says that the scores do not increase along the results when
  \<^verbatim>\<open>BiggerIsCloser()\<close> is true and do not decrease when it is false. The code does the
  opposite in a single partition. With the cosine metric, whose \<^verbatim>\<open>BiggerIsCloser()\<close> is false,
  the three axis entries come back with the scores \<open>1, 0, -1\<close>; with the dot product, whose
  \<^verbatim>\<open>BiggerIsCloser()\<close> is true, they come back with the scores \<open>-1, 0, 1\<close>.
\<close>

theorem C1_counterexample:
  "\<not> BiggerIsCloser (distanceMetric (NewVectorDB CosineSimilarity [axisA, axisB, axisC])) \<and>
   Query (NewVectorDB CosineSimilarity [axisA, axisB, axisC]) [1, 0]
     \<lparr>TopK = 3, MinimumScore = - 1, Predicate = None\<rparr>
     = Inr [\<lparr>Score = 1, Entry = axisA\<rparr>, \<lparr>Score = 0, Entry = axisB\<rparr>, \<lparr>Score = - 1, Entry = axisC\<rparr>] \<and>
   BiggerIsCloser (distanceMetric (NewVectorDB DotProduct [axisA, axisB, axisC])) \<and>
   Query (NewVectorDB DotProduct [axisA, axisB, axisC]) [1, 0]
     \<lparr>TopK = 3, MinimumScore = - 1, Predicate = None\<rparr>
     = Inr [\<lparr>Score = - 1, Entry = axisC\<rparr>, \<lparr>Score = 0, Entry = axisB\<rparr>, \<lparr>Score = 1, Entry = axisA\<rparr>]"
  by (simp add: eval_query)

text \<open>
  Claim C1, amended. For every store, query vector and options for which Query returns,
  when \<^verbatim>\<open>BiggerIsCloser()\<close> is false (as for the cosine metric, the one the program uses) the
  score of every result is at least the score of every later result, so in particular of
  the next one: the highest score comes first, for every store size. The merge takes the
  head with the numerically higher score, the left one on a tie, whatever the metric's
  direction (lemma \<open>querySlice_merge_descending\<close>). Nothing is claimed for a metric whose
  \<^verbatim>\<open>BiggerIsCloser()\<close> is true.
\<close>

theorem C1_highest_score_first:
  assumes "Query db v opt = Inr rs" "\<not> BiggerIsCloser (distanceMetric db)"
  shows "sorted_wrt (\<lambda>a b. Score b \<le> Score a) rs \<and>
         (\<forall>i. Suc i < length rs \<longrightarrow> Score (rs ! Suc i) \<le> Score (rs ! i)) \<and>
         (\<forall>l r :: ('m, 'f::linorder) QueryResult. \<forall>ls rs'.
            hd (querySlice_merge (l # ls) (r # rs')) = (if Score r \<le> Score l then l else r))"
proof -
  from assms(1) have q: "querySlice db (entries db) v opt = Inr rs" by (simp add: Query_def)
  have s: "sorted_wrt (\<lambda>a b. Score b \<le> Score a) rs"
    using q assms(2) by (rule querySlice_descending)
  moreover have "\<forall>i. Suc i < length rs \<longrightarrow> Score (rs ! Suc i) \<le> Score (rs ! i)"
    using sorted_wrt_nth_less[OF s] by simp
  moreover have "\<forall>l r :: ('m, 'f::linorder) QueryResult. \<forall>ls rs'.
            hd (querySlice_merge (l # ls) (r # rs')) = (if Score r \<le> Score l then l else r)"
    by simp
  ultimately show ?thesis by blast
qed

theorem C1_highest_score_first_witness:
  "Query (NewVectorDB CosineSimilarity [axisB, axisC, axisA]) [1, 0]
     \<lparr>TopK = 2, MinimumScore = - 1, Predicate = None\<rparr>
     = Inr [\<lparr>Score = 1, Entry = axisA\<rparr>, \<lparr>Score = 0, Entry = axisB\<rparr>] \<and>
   \<not> BiggerIsCloser (distanceMetric (NewVectorDB CosineSimilarity [axisB, axisC, axisA])) \<and>
   sorted_wrt (\<lambda>a b. Score b \<le> Score a) [\<lparr>Score = 1 :: real, Entry = axisA\<rparr>, \<lparr>Score = 0, Entry = axisB\<rparr>]"
proof -
  let ?db = "NewVectorDB CosineSimilarity [axisB, axisC, axisA]"
  have q: "Query ?db [1, 0] \<lparr>TopK = 2, MinimumScore = - 1, Predicate = None\<rparr>
     = Inr [\<lparr>Score = 1, Entry = axisA\<rparr>, \<lparr>Score = 0, Entry = axisB\<rparr>]"
    by (simp add: eval_query)
  have b: "\<not> BiggerIsCloser (distanceMetric ?db)"
    by (simp add: NewVectorDB_def CosineSimilarity_def)
  from C1_highest_score_first[OF q b]
  have "sorted_wrt (\<lambda>a b. Score b \<le> Score a) [\<lparr>Score = 1 :: real, Entry = axisA\<rparr>, \<lparr>Score = 0, Entry = axisB\<rparr>]"
    by (rule conjunct1)
  with q b show ?thesis by blast
qed

subsection \<open>C2 and C5: a store above the threshold\<close>

text \<open>
  The store of 101 entries that all score \<open>1\<close> against the query \<open>[1, 0]\<close>, asked for the one
  best result: the two halves of 50 and 51 entries keep one result each, and the merge
  returns both. The sequential scan of the same entries keeps one.
\<close>

lemma manyEntries_all_accepted:
  assumes "set es \<subseteq> set (manyEntries n)"
  shows "filter (accepted (NewVectorDB CosineSimilarity (manyEntries n)) [1, 0]
           \<lparr>TopK = k, MinimumScore = 0, Predicate = None\<rparr>) es = es"
proof -
  have "accepted (NewVectorDB CosineSimilarity (manyEntries n)) [1, 0]
           \<lparr>TopK = k, MinimumScore = 0, Predicate = None\<rparr> e" if "e \<in> set es" for e
    using that assms by (intro manyEntries_accepted[of e n]) (auto simp: NewVectorDB_def)
  then show ?thesis by simp
qed

lemma manyEntries_101_partitioned:
  "\<exists>rs. Query (NewVectorDB CosineSimilarity (manyEntries 101)) [1, 0]
          \<lparr>TopK = 1, MinimumScore = 0, Predicate = None\<rparr> = Inr rs \<and> length rs = 2"
proof -
  let ?db = "NewVectorDB CosineSimilarity (manyEntries 101)"
  let ?opt = "\<lparr>TopK = 1, MinimumScore = 0 :: real, Predicate = None :: ((string option, real) Entry \<Rightarrow> bool) option\<rparr>"
  let ?es = "manyEntries 101"
  have "\<forall>e \<in> set ?es. scorable ?db [1, 0] ?opt e"
    by (auto intro!: accepted_scorable manyEntries_accepted[of _ 101] simp: NewVectorDB_def)
  from querySlice_total[OF _ _ this] obtain rs where rs: "querySlice ?db ?es [1, 0] ?opt = Inr rs"
    by (auto simp: makeslice_maxCap_def)
  have len: "threshold < length ?es" "length ?es \<le> 2 * threshold" "length ?es div 2 = 50"
    by (simp_all add: length_manyEntries threshold_def)
  have l: "filter (accepted ?db [1, 0] ?opt) (take 50 ?es) = take 50 ?es"
    by (rule manyEntries_all_accepted) (rule set_take_subset)
  have r: "filter (accepted ?db [1, 0] ?opt) (drop 50 ?es) = drop 50 ?es"
    by (rule manyEntries_all_accepted) (rule set_drop_subset)
  from querySlice_two_partitions[OF len(1,2) rs] have "length rs = 2"
    by (simp add: len(3) l r length_manyEntries)
  with rs show ?thesis by (auto simp: Query_def NewVectorDB_def)
qed

lemma manyEntries_101_sequential:
  "\<exists>rs. querySlice_leaf (NewVectorDB CosineSimilarity (manyEntries 101)) (manyEntries 101) [1, 0]
          \<lparr>TopK = 1, MinimumScore = 0, Predicate = None\<rparr> = Inr rs \<and> length rs = 1"
proof -
  let ?db = "NewVectorDB CosineSimilarity (manyEntries 101)"
  let ?opt = "\<lparr>TopK = 1, MinimumScore = 0 :: real, Predicate = None :: ((string option, real) Entry \<Rightarrow> bool) option\<rparr>"
  let ?es = "manyEntries 101"
  have "\<forall>e \<in> set ?es. scorable ?db [1, 0] ?opt e"
    by (auto intro!: accepted_scorable manyEntries_accepted[of _ 101] simp: NewVectorDB_def)
  from querySlice_loop_total[OF this, of "[]"] obtain rs where
    rs: "querySlice_loop ?db [1, 0] ?opt ?es [] = Inr rs" by auto
  have "filter (accepted ?db [1, 0] ?opt) ?es = ?es"
    by (rule manyEntries_all_accepted) simp
  with querySlice_loop_count[OF rs] have "length rs = 1" by (simp add: length_manyEntries)
  with rs show ?thesis by (simp add: querySlice_leaf_def makeslice_maxCap_def)
qed

text \<open>
  Where \<^verbatim>\<open>TopK\<close> leaves room for every accepted entry nothing is cut anywhere, and the
  partitioned query returns the same entries as the sequential scan of the whole store.
\<close>

lemma partitioned_agrees_with_sequential_when_room:
  assumes "Query db v opt = Inr rs" "querySlice_leaf db (entries db) v opt = Inr rs'"
    "int (length (filter (accepted db v opt) (entries db))) \<le> TopK opt"
  shows "mset (map Entry rs) = mset (map Entry rs')"
proof -
  from assms(1) have "querySlice db (entries db) v opt = Inr rs" by (simp add: Query_def)
  from querySlice_mset[OF this] assms(3)
  have "mset (map Entry rs) = mset (filter (accepted db v opt) (entries db))" by blast
  moreover from querySlice_leaf_Inr[OF assms(2)]
  have "querySlice_loop db v opt (entries db) [] = Inr rs'" by simp
  from querySlice_loop_mset[OF this] assms(3)
  have "mset (map Entry rs') = mset (filter (accepted db v opt) (entries db))" by simp
  ultimately show ?thesis by simp
qed

text \<open>
  Claim C2 (violated by the code). The number of results must not exceed
  \<^verbatim>\<open>min(TopK, accepted entries)\<close>, also above the threshold of 100 entries. The comment at the
  merge says \<^verbatim>\<open>Return the top K scores from both left & right\<close>, but the merge returns all
  results of both halves. On the store of 101 entries with \<^verbatim>\<open>TopK = 1\<close>, where all 101 entries
  are accepted and the bound is \<open>1\<close>, Query returns two results. In a single partition the bound
  holds with equality (lemma \<open>querySlice_leaf_count\<close>).
\<close>

theorem C2_two_results_for_TopK_one:
  "(case Query (NewVectorDB CosineSimilarity (manyEntries 101)) [1, 0]
           \<lparr>TopK = 1, MinimumScore = 0, Predicate = None\<rparr> of
      Inl p \<Rightarrow> None | Inr rs \<Rightarrow> Some (length rs)) = Some 2 \<and>
   min (nat 1) (length (filter (accepted (NewVectorDB CosineSimilarity (manyEntries 101)) [1, 0]
           \<lparr>TopK = 1, MinimumScore = 0, Predicate = None\<rparr>) (manyEntries 101))) = 1"
proof -
  from manyEntries_101_partitioned obtain rs where
    "Query (NewVectorDB CosineSimilarity (manyEntries 101)) [1, 0]
          \<lparr>TopK = 1, MinimumScore = 0, Predicate = None\<rparr> = Inr rs" "length rs = 2" by blast
  moreover have "filter (accepted (NewVectorDB CosineSimilarity (manyEntries 101)) [1, 0]
           \<lparr>TopK = 1, MinimumScore = 0, Predicate = None\<rparr>) (manyEntries 101) = manyEntries 101"
    by (rule manyEntries_all_accepted) simp
  ultimately show ?thesis by (simp add: length_manyEntries)
qed

text \<open>
  Claim C5 (violated by the code). Evaluating a query with another partitioning, or with the
  sequential scan alone, must give the same results up to the order of equal scores. On the
  store of 101 entries with \<^verbatim>\<open>TopK = 1\<close> the partitioned evaluation of the source returns two
  results and the sequential scan of the same entries returns one. This is the missing
  truncation to \<^verbatim>\<open>TopK\<close> after the merge, the defect of claim C2.
\<close>

theorem C5_partitioned_differs_from_sequential:
  "(case Query (NewVectorDB CosineSimilarity (manyEntries 101)) [1, 0]
           \<lparr>TopK = 1, MinimumScore = 0, Predicate = None\<rparr> of
      Inl p \<Rightarrow> None | Inr rs \<Rightarrow> Some (length rs)) = Some 2 \<and>
   (case querySlice_leaf (NewVectorDB CosineSimilarity (manyEntries 101)) (manyEntries 101) [1, 0]
           \<lparr>TopK = 1, MinimumScore = 0, Predicate = None\<rparr> of
      Inl p \<Rightarrow> None | Inr rs \<Rightarrow> Some (length rs)) = Some 1"
proof -
  from manyEntries_101_partitioned obtain rs where
    "Query (NewVectorDB CosineSimilarity (manyEntries 101)) [1, 0]
          \<lparr>TopK = 1, MinimumScore = 0, Predicate = None\<rparr> = Inr rs" "length rs = 2" by blast
  moreover from manyEntries_101_sequential obtain rs' where
    "querySlice_leaf (NewVectorDB CosineSimilarity (manyEntries 101)) (manyEntries 101) [1, 0]
          \<lparr>TopK = 1, MinimumScore = 0, Predicate = None\<rparr> = Inr rs'" "length rs' = 1" by blast
  ultimately show ?thesis by simp
qed

subsection \<open>C3: the minimum-score cutoff\<close>

text \<open>
  Claim C3 says that with a lower-is-closer metric such as the cosine metric an entry is
  excluded when its score is higher than the cutoff, not when it is numerically below it.
  The code compares \<^verbatim>\<open>score < o.MinimumScore\<close> whatever the metric: with the cosine metric and
  the cutoff \<open>0\<close> it returns the entries with the scores \<open>1\<close> and \<open>0\<close> and excludes the one with
  the score \<open>-1\<close>.
\<close>

theorem C3_counterexample:
  "\<not> BiggerIsCloser (distanceMetric (NewVectorDB CosineSimilarity [axisA, axisB, axisC])) \<and>
   CosineSimilarity_Distance [1, 0] (Vector axisC) = Inr (- 1) \<and>
   Query (NewVectorDB CosineSimilarity [axisA, axisB, axisC]) [1, 0]
     \<lparr>TopK = 3, MinimumScore = 0, Predicate = None\<rparr>
     = Inr [\<lparr>Score = 1, Entry = axisA\<rparr>, \<lparr>Score = 0, Entry = axisB\<rparr>]"
  by (simp add: eval_query)

text \<open>
  Claim C3, amended. For every query that returns, whatever \<^verbatim>\<open>BiggerIsCloser()\<close> says, the
  cutoff is a numeric, inclusive lower bound: every result has a score of at least
  \<^verbatim>\<open>MinimumScore\<close>, and when \<^verbatim>\<open>TopK\<close> is at least the number of entries the results are exactly
  the entries that satisfy the predicate (if one is set) and whose score is at least
  \<^verbatim>\<open>MinimumScore\<close>. So with a lower-is-closer metric such as the cosine metric an entry is
  excluded when its score is numerically below the cutoff.
\<close>

theorem C3_cutoff_is_numeric_lower_bound:
  assumes "Query db v opt = Inr rs"
  shows "(\<forall>r \<in> set rs. MinimumScore opt \<le> Score r) \<and>
         (int (length (entries db)) \<le> TopK opt \<longrightarrow>
            mset (map Entry rs) =
              mset (filter (\<lambda>e. (case Predicate opt of None \<Rightarrow> True | Some p \<Rightarrow> p e) \<and>
                       (\<exists>s. Distance (distanceMetric db) v (Vector e) = Inr s \<and> MinimumScore opt \<le> s))
                     (entries db)))"
proof -
  from assms have q: "querySlice db (entries db) v opt = Inr rs" by (simp add: Query_def)
  have acc: "accepted db v opt e \<longleftrightarrow>
      (case Predicate opt of None \<Rightarrow> True | Some p \<Rightarrow> p e) \<and>
      (\<exists>s. Distance (distanceMetric db) v (Vector e) = Inr s \<and> MinimumScore opt \<le> s)" for e
    by (auto simp: accepted_def not_less split: sum.splits)
  have "\<forall>r \<in> set rs. MinimumScore opt \<le> Score r"
  proof
    fix r assume "r \<in> set rs"
    with querySlice_sound[OF q] have "accepted db v opt (Entry r)"
      "Distance (distanceMetric db) v (Vector (Entry r)) = Inr (Score r)" by blast+
    then show "MinimumScore opt \<le> Score r" by (simp add: accepted_def not_less)
  qed
  moreover have "mset (map Entry rs) = mset (filter (\<lambda>e. (case Predicate opt of None \<Rightarrow> True | Some p \<Rightarrow> p e) \<and>
                       (\<exists>s. Distance (distanceMetric db) v (Vector e) = Inr s \<and> MinimumScore opt \<le> s))
                     (entries db))"
    if room: "int (length (entries db)) \<le> TopK opt"
  proof -
    have "length (filter (accepted db v opt) (entries db)) \<le> length (entries db)" by simp
    with room have "int (length (filter (accepted db v opt) (entries db))) \<le> TopK opt" by linarith
    with querySlice_mset[OF q] have "mset (map Entry rs) = mset (filter (accepted db v opt) (entries db))"
      by blast
    moreover have "filter (accepted db v opt) (entries db) =
        filter (\<lambda>e. (case Predicate opt of None \<Rightarrow> True | Some p \<Rightarrow> p e) \<and>
                       (\<exists>s. Distance (distanceMetric db) v (Vector e) = Inr s \<and> MinimumScore opt \<le> s))
                     (entries db)"
      by (rule filter_cong[OF refl]) (rule acc)
    ultimately show ?thesis by simp
  qed
  ultimately show ?thesis by blast
qed

theorem C3_cutoff_is_numeric_lower_bound_witness:
  "Query (NewVectorDB CosineSimilarity [axisC, axisB, axisA]) [1, 0]
     \<lparr>TopK = 3, MinimumScore = 0, Predicate = None\<rparr>
     = Inr [\<lparr>Score = 1, Entry = axisA\<rparr>, \<lparr>Score = 0, Entry = axisB\<rparr>] \<and>
   int (length (entries (NewVectorDB CosineSimilarity [axisC, axisB, axisA]))) \<le> 3 \<and>
   list_all (\<lambda>r. 0 \<le> Score r) [\<lparr>Score = 1 :: real, Entry = axisA\<rparr>, \<lparr>Score = 0, Entry = axisB\<rparr>] \<and>
   mset (map Entry [\<lparr>Score = 1 :: real, Entry = axisA\<rparr>, \<lparr>Score = 0, Entry = axisB\<rparr>]) =
     mset (filter (\<lambda>e. \<exists>s. CosineSimilarity_Distance [1, 0] (Vector e) = Inr s \<and> 0 \<le> s)
            [axisC, axisB, axisA])"
proof -
  let ?db = "NewVectorDB CosineSimilarity [axisC, axisB, axisA]"
  let ?opt = "\<lparr>TopK = 3, MinimumScore = 0 :: real, Predicate = None\<rparr>"
  let ?rs = "[\<lparr>Score = 1 :: real, Entry = axisA\<rparr>, \<lparr>Score = 0, Entry = axisB\<rparr>]"
  have q: "Query ?db [1, 0] ?opt = Inr ?rs" by (simp add: eval_query)
  have room: "int (length (entries ?db)) \<le> 3" by (simp add: NewVectorDB_def)
  from C3_cutoff_is_numeric_lower_bound[OF q]
  have "\<forall>r \<in> set ?rs. 0 \<le> Score r"
    and "mset (map Entry ?rs) =
      mset (filter (\<lambda>e. \<exists>s. CosineSimilarity_Distance [1, 0] (Vector e) = Inr s \<and> 0 \<le> s)
             [axisC, axisB, axisA])"
    by (simp_all add: NewVectorDB_def CosineSimilarity_def)
  then have "list_all (\<lambda>r. 0 \<le> Score r) ?rs"
    and "mset (map Entry ?rs) =
      mset (filter (\<lambda>e. \<exists>s. CosineSimilarity_Distance [1, 0] (Vector e) = Inr s \<and> 0 \<le> s)
             [axisC, axisB, axisA])"
    by (simp_all only: list_all_iff)
  with q room show ?thesis by blast
qed

subsection \<open>C4: vectors of different lengths\<close>

text \<open>
  Claim C4 (violated by the code). For vectors \<open>a\<close> and \<open>b\<close> of different lengths both \<open>Distance\<close>
  methods must panic, whichever is the longer. The comment in both methods says so
  (\<^verbatim>\<open>If the vector lengths do not match, this funtion panics\<close>), but the loop \<^verbatim>\<open>for k := range a\<close> only
  reads past the end of \<open>b\<close> when \<open>a\<close> is the longer one (lemmas
  \<open>DotProduct_Distance_returns_iff\<close> and \<open>CosineSimilarity_Distance_returns_iff\<close>). For the query
  \<open>[1]\<close> and the stored vector \<open>[1, 2]\<close> both methods return the score \<open>1\<close> of the prefix \<open>[1]\<close>.
\<close>

theorem C4_shorter_query_returns_a_score:
  "DotProduct_Distance [1 :: real] [1, 2] = Inr 1 \<and> CosineSimilarity_Distance [1] [1, 2] = Inr 1"
  by (simp add: DotProduct_Distance_def CosineSimilarity_Distance_def)

subsection \<open>C6: the store stays sorted\<close>

text \<open>
  Claim C6. For every store whose entries are sorted by identifier in ascending order with
  no duplicates, and for every sequence of Upsert and Delete calls, the entries are sorted by
  identifier in ascending order with no duplicates after every call of the sequence, that
  is after every prefix \<open>take n ops\<close> of it.
\<close>

theorem C6_sort_invariant:
  assumes "sorted (map ID (entries db))" "distinct (map ID (entries db))"
  shows "sorted (map ID (entries (applyOps db (take n ops)))) \<and>
         distinct (map ID (entries (applyOps db (take n ops))))"
proof -
  from assms have "sorted_wrt (<) (map ID (entries db))" by (simp add: strict_sorted_iff)
  then have "sorted_wrt (<) (map ID (entries (applyOps db (take n ops))))"
    by (rule applyOps_sorted)
  then show ?thesis by (simp add: strict_sorted_iff)
qed

theorem C6_sort_invariant_witness:
  "sorted (map ID (entries (NewVectorDB CosineSimilarity testEntries))) \<and>
   distinct (map ID (entries (NewVectorDB CosineSimilarity testEntries))) \<and>
   sorted (map ID (entries (applyOps (NewVectorDB CosineSimilarity testEntries)
     (take 2 [OpDelete ''2'', OpUpsert axisA, OpUpsert axisB])))) \<and>
   distinct (map ID (entries (applyOps (NewVectorDB CosineSimilarity testEntries)
     (take 2 [OpDelete ''2'', OpUpsert axisA, OpUpsert axisB]))))"
proof -
  have s: "sorted (map ID (entries (NewVectorDB CosineSimilarity testEntries)))"
    by (simp add: NewVectorDB_def testEntries_def)
  have d: "distinct (map ID (entries (NewVectorDB CosineSimilarity testEntries)))"
    by (simp add: NewVectorDB_def testEntries_def)
  from C6_sort_invariant[OF s d, of 2 "[OpDelete ''2'', OpUpsert axisA, OpUpsert axisB]"] s d
  show ?thesis by blast
qed

subsection \<open>C7: what Get returns after a sequence of calls\<close>

text \<open>
  Claim C7 says that an identifier never upserted is not found. A store can be created with
  entries (\<^verbatim>\<open>NewVectorDB\<close> takes them), and \<^verbatim>\<open>Get\<close> finds those although no call upserted them:
  on the store of the one entry \<open>axisA\<close> and the empty sequence of calls, \<^verbatim>\<open>Get\<close> finds \<open>a\<close>.
\<close>

theorem C7_counterexample:
  "sorted (map ID (entries (NewVectorDB CosineSimilarity [axisA]))) \<and>
   distinct (map ID (entries (NewVectorDB CosineSimilarity [axisA]))) \<and>
   spec_lastOp ''a'' ([] :: (string option, real) StoreOp list) = None \<and>
   Get (applyOps (NewVectorDB CosineSimilarity [axisA]) []) ''a'' = (Some axisA, True)"
  by (simp add: eval_store axisA_def)

text \<open>
  Claim C7, amended. For every sorted, duplicate-free initial store and every sequence of
  Upsert and Delete calls: when the last call that names an identifier is an Upsert, Get
  returns that entry and found = true; when it is a Delete, Get returns found = false; when
  no call names the identifier, Get returns what it returns on the initial store, which is
  the initial entry with that identifier and found = true, or found = false when the initial
  store has no such entry.
\<close>

theorem C7_lookup_after_calls:
  assumes "sorted (map ID (entries db))" "distinct (map ID (entries db))"
  shows "Get (applyOps db ops) t =
           (case spec_lastOp t ops of
              None \<Rightarrow> Get db t
            | Some (OpUpsert e) \<Rightarrow> (Some e, True)
            | Some (OpDelete d) \<Rightarrow> (None, False)) \<and>
         (\<forall>e \<in> set (entries db). Get db (ID e) = (Some e, True)) \<and>
         (t \<notin> ID ` set (entries db) \<longrightarrow> Get db t = (None, False))"
proof -
  from assms have s: "sorted_wrt (<) (map ID (entries db))" by (simp add: strict_sorted_iff)
  show ?thesis
    using Get_applyOps[OF s, of ops t] Get_present[OF s] Get_miss[of t db] by blast
qed

theorem C7_lookup_after_calls_witness:
  "sorted (map ID (entries (NewVectorDB CosineSimilarity [axisA]))) \<and>
   distinct (map ID (entries (NewVectorDB CosineSimilarity [axisA]))) \<and>
   Get (applyOps (NewVectorDB CosineSimilarity [axisA])
          [OpUpsert axisC, OpUpsert axisB, OpDelete ''c'', OpUpsert (axisB\<lparr>Vector := [0, 2]\<rparr>)]) ''b''
     = (Some (axisB\<lparr>Vector := [0, 2]\<rparr>), True) \<and>
   Get (applyOps (NewVectorDB CosineSimilarity [axisA])
          [OpUpsert axisC, OpUpsert axisB, OpDelete ''c'', OpUpsert (axisB\<lparr>Vector := [0, 2]\<rparr>)]) ''c''
     = (None, False) \<and>
   Get (applyOps (NewVectorDB CosineSimilarity [axisA])
          [OpUpsert axisC, OpUpsert axisB, OpDelete ''c'', OpUpsert (axisB\<lparr>Vector := [0, 2]\<rparr>)]) ''a''
     = (Some axisA, True) \<and>
   Get (applyOps (NewVectorDB CosineSimilarity [axisA])
          [OpUpsert axisC, OpUpsert axisB, OpDelete ''c'', OpUpsert (axisB\<lparr>Vector := [0, 2]\<rparr>)]) ''d''
     = (None, False)"
proof -
  let ?db = "NewVectorDB CosineSimilarity [axisA]"
  let ?ops = "[OpUpsert axisC, OpUpsert axisB, OpDelete ''c'', OpUpsert (axisB\<lparr>Vector := [0, 2]\<rparr>)]"
  have s: "sorted (map ID (entries ?db))" by (simp add: NewVectorDB_def)
  have d: "distinct (map ID (entries ?db))" by (simp add: NewVectorDB_def)
  have init: "axisA \<in> set (entries ?db)" "ID axisA = ''a''" "''d'' \<notin> ID ` set (entries ?db)"
    by (simp_all add: NewVectorDB_def axisA_def)
  have "Get (applyOps ?db ?ops) ''b'' = (Some (axisB\<lparr>Vector := [0, 2]\<rparr>), True)"
    using C7_lookup_after_calls[OF s d, of ?ops "''b''"]
    by (simp add: axisA_def axisB_def axisC_def)
  moreover have "Get (applyOps ?db ?ops) ''c'' = (None, False)"
    using C7_lookup_after_calls[OF s d, of ?ops "''c''"]
    by (simp add: axisA_def axisB_def axisC_def)
  moreover have "Get (applyOps ?db ?ops) ''a'' = (Some axisA, True)"
  proof -
    from C7_lookup_after_calls[OF s d, of ?ops "''a''"]
    have "Get (applyOps ?db ?ops) ''a'' = Get ?db ''a''"
      and "\<forall>e \<in> set (entries ?db). Get ?db (ID e) = (Some e, True)"
      by (simp_all add: axisB_def axisC_def)
    with init(1) have "Get (applyOps ?db ?ops) ''a'' = Get ?db ''a''"
      "Get ?db (ID axisA) = (Some axisA, True)" by blast+
    then show ?thesis by (simp only: init(2))
  qed
  moreover have "Get (applyOps ?db ?ops) ''d'' = (None, False)"
    using C7_lookup_after_calls[OF s d, of ?ops "''d''"] init
    by (simp add: axisA_def axisB_def axisC_def)
  ultimately show ?thesis using s d by blast
qed

subsection \<open>C8: queries that return nothing\<close>

text \<open>
  Claim C8 says that Query returns an empty list and does not fail for every \<^verbatim>\<open>TopK \<le> 0\<close>, on
  every empty store, and whenever the predicate rejects every entry.
  \<^verbatim>\<open>make([]QueryResult, 0, o.TopK)\<close> runs first and panics on a negative \<^verbatim>\<open>TopK\<close>, and on a
  \<^verbatim>\<open>TopK\<close> beyond the capacity it accepts (here \<^verbatim>\<open>math.MaxInt64\<close>), also on an empty store.
  With \<^verbatim>\<open>TopK = 0\<close> the scan still scores every entry before it discards it, so a query vector
  longer than a stored vector panics there too.
\<close>

theorem C8_counterexample:
  "Query (NewVectorDB CosineSimilarity ([] :: (string option, real) Entry list)) [1, 0]
     \<lparr>TopK = - 1, MinimumScore = 0, Predicate = None\<rparr> = Inl MakeSliceCapOutOfRange \<and>
   Query (NewVectorDB CosineSimilarity ([] :: (string option, real) Entry list)) [1, 0]
     \<lparr>TopK = 9223372036854775807, MinimumScore = 0, Predicate = None\<rparr> = Inl MakeSliceCapOutOfRange \<and>
   Query (NewVectorDB CosineSimilarity [axisA]) [1, 0, 0]
     \<lparr>TopK = 0, MinimumScore = 0, Predicate = None\<rparr> = Inl IndexOutOfRange"
  by (simp add: eval_query)

text \<open>
  Claim C8, amended. Query returns the empty list, and does not panic, in each of these
  cases: the store has no entries and \<^verbatim>\<open>TopK\<close> is a capacity that \<^verbatim>\<open>make\<close> accepts (not negative
  and at most \<open>makeslice_maxCap\<close>); \<^verbatim>\<open>TopK\<close> is zero and the metric returns a score for every
  entry that the predicate lets through; the predicate rejects every entry and \<^verbatim>\<open>TopK\<close> is a
  capacity that \<^verbatim>\<open>make\<close> accepts. For every other \<^verbatim>\<open>TopK\<close>, so for every negative one, Query
  panics, whatever the store and the predicate.
\<close>

theorem C8_empty_results:
  "(entries db = [] \<and> 0 \<le> TopK opt \<and> TopK opt \<le> makeslice_maxCap \<longrightarrow> Query db v opt = Inr []) \<and>
   (TopK opt = 0 \<and> (\<forall>e \<in> set (entries db). scorable db v opt e) \<longrightarrow> Query db v opt = Inr []) \<and>
   (0 \<le> TopK opt \<and> TopK opt \<le> makeslice_maxCap \<and>
      (\<exists>p. Predicate opt = Some p \<and> (\<forall>e \<in> set (entries db). \<not> p e)) \<longrightarrow>
      Query db v opt = Inr []) \<and>
   (TopK opt < 0 \<or> makeslice_maxCap < TopK opt \<longrightarrow> Query db v opt = Inl MakeSliceCapOutOfRange)"
proof (intro conjI impI)
  assume "entries db = [] \<and> 0 \<le> TopK opt \<and> TopK opt \<le> makeslice_maxCap"
  then show "Query db v opt = Inr []"
    by (simp add: Query_def querySlice_leaf_case querySlice_leaf_def)
next
  assume h: "TopK opt = 0 \<and> (\<forall>e \<in> set (entries db). scorable db v opt e)"
  then have "0 \<le> TopK opt" "TopK opt \<le> makeslice_maxCap" by (simp_all add: makeslice_maxCap_def)
  from querySlice_total[OF this] h obtain rs where rs: "querySlice db (entries db) v opt = Inr rs"
    by blast
  with h have "rs = []" by (simp add: querySlice_TopK_zero)
  with rs show "Query db v opt = Inr []" by (simp add: Query_def)
next
  assume h: "0 \<le> TopK opt \<and> TopK opt \<le> makeslice_maxCap \<and>
      (\<exists>p. Predicate opt = Some p \<and> (\<forall>e \<in> set (entries db). \<not> p e))"
  then obtain p where p: "Predicate opt = Some p" "\<forall>e \<in> set (entries db). \<not> p e" by blast
  then have "\<forall>e \<in> set (entries db). scorable db v opt e" by (simp add: scorable_def)
  with querySlice_total[of opt "entries db" db v] h
  obtain rs where rs: "querySlice db (entries db) v opt = Inr rs" by blast
  have "filter (accepted db v opt) (entries db) = []"
    using p by (simp add: accepted_def filter_empty_conv)
  with querySlice_length_accepted[OF rs] have "rs = []" by simp
  with rs show "Query db v opt = Inr []" by (simp add: Query_def)
next
  assume "TopK opt < 0 \<or> makeslice_maxCap < TopK opt"
  then show "Query db v opt = Inl MakeSliceCapOutOfRange"
    by (simp add: Query_def querySlice_TopK_out_of_range)
qed

theorem C8_empty_results_witness:
  "entries (NewVectorDB CosineSimilarity ([] :: (string option, real) Entry list)) = [] \<and>
   (0 :: int) \<le> 3 \<and> 3 \<le> makeslice_maxCap \<and>
   Query (NewVectorDB CosineSimilarity ([] :: (string option, real) Entry list)) [1, 0]
     \<lparr>TopK = 3, MinimumScore = 0, Predicate = None\<rparr> = Inr [] \<and>
   list_all (scorable (NewVectorDB CosineSimilarity [axisA, axisB, axisC]) [1, 0]
     \<lparr>TopK = 0, MinimumScore = 0, Predicate = None\<rparr>) [axisA, axisB, axisC] \<and>
   Query (NewVectorDB CosineSimilarity [axisA, axisB, axisC]) [1, 0]
     \<lparr>TopK = 0, MinimumScore = 0, Predicate = None\<rparr> = Inr [] \<and>
   list_all (\<lambda>e. \<not> (\<lambda>e. ID e = ''z'') e) [axisA, axisB, axisC] \<and>
   Query (NewVectorDB CosineSimilarity [axisA, axisB, axisC]) [1, 0]
     \<lparr>TopK = 3, MinimumScore = 0, Predicate = Some (\<lambda>e. ID e = ''z'')\<rparr> = Inr [] \<and>
   makeslice_maxCap < 2 ^ 44 + 1 \<and>
   Query (NewVectorDB CosineSimilarity [axisA, axisB, axisC]) [1, 0]
     \<lparr>TopK = 2 ^ 44 + 1, MinimumScore = 0, Predicate = None\<rparr> = Inl MakeSliceCapOutOfRange"
proof -
  let ?none = "NewVectorDB CosineSimilarity ([] :: (string option, real) Entry list)"
  let ?db = "NewVectorDB CosineSimilarity [axisA, axisB, axisC]"
  let ?opt0 = "\<lparr>TopK = 0, MinimumScore = 0 :: real, Predicate = None :: ((string option, real) Entry \<Rightarrow> bool) option\<rparr>"
  let ?optz = "\<lparr>TopK = 3, MinimumScore = 0 :: real, Predicate = Some (\<lambda>e :: (string option, real) Entry. ID e = ''z'')\<rparr>"
  let ?optbig = "\<lparr>TopK = 2 ^ 44 + 1, MinimumScore = 0 :: real, Predicate = None :: ((string option, real) Entry \<Rightarrow> bool) option\<rparr>"
  have e: "entries ?none = []" by (simp add: NewVectorDB_def)
  have k: "(0 :: int) \<le> 3" "3 \<le> makeslice_maxCap" "makeslice_maxCap < 2 ^ 44 + 1"
    by (simp_all add: makeslice_maxCap_def)
  have sc: "list_all (scorable ?db [1, 0] ?opt0) [axisA, axisB, axisC]"
    by (simp add: scorable_def NewVectorDB_def CosineSimilarity_def CosineSimilarity_Distance_def
        axisA_def axisB_def axisC_def)
  then have sc': "\<forall>e \<in> set (entries ?db). scorable ?db [1, 0] ?opt0 e"
    by (simp add: NewVectorDB_def list_all_iff)
  have rej: "list_all (\<lambda>e. \<not> (\<lambda>e. ID e = ''z'') e) [axisA, axisB, axisC]"
    by (simp add: axisA_def axisB_def axisC_def)
  then have rej': "\<forall>e \<in> set (entries ?db). \<not> (\<lambda>e. ID e = ''z'') e"
    by (simp add: NewVectorDB_def list_all_iff)
  have "Query ?none [1, 0] \<lparr>TopK = 3, MinimumScore = 0, Predicate = None\<rparr> = Inr []"
    using C8_empty_results[of ?none "\<lparr>TopK = 3, MinimumScore = 0, Predicate = None\<rparr>" "[1, 0]"] e k
    by simp
  moreover have "Query ?db [1, 0] ?opt0 = Inr []"
    using C8_empty_results[of ?db ?opt0 "[1, 0]"] sc' by simp
  moreover have "Query ?db [1, 0] ?optz = Inr []"
    using C8_empty_results[of ?db ?optz "[1, 0]"] rej' k by simp
  moreover have "Query ?db [1, 0] ?optbig = Inl MakeSliceCapOutOfRange"
    using C8_empty_results[of ?db ?optbig "[1, 0]"] k by simp
  ultimately show ?thesis using e k sc rej by blast
qed

subsection \<open>C9: deleting an absent identifier\<close>

text \<open>
  Claim C9. For every store and every identifier that no entry of it has, Delete leaves the
  store as it is: the same entries in the same order. This holds of every store, so in
  particular of every sorted, duplicate-free one.
\<close>

theorem C9_delete_absent:
  assumes "t \<notin> ID ` set (entries db)"
  shows "Delete db t = db"
proof -
  have "\<not> snd (search db t)" using assms search_found_mem by blast
  then show ?thesis by (cases "search db t") (simp add: Delete_def)
qed

theorem C9_delete_absent_witness:
  "''9'' \<notin> ID ` set (entries (NewVectorDB CosineSimilarity testEntries)) \<and>
   sorted (map ID (entries (NewVectorDB CosineSimilarity testEntries))) \<and>
   distinct (map ID (entries (NewVectorDB CosineSimilarity testEntries))) \<and>
   Delete (NewVectorDB CosineSimilarity testEntries) ''9'' = NewVectorDB CosineSimilarity testEntries"
proof -
  have a: "''9'' \<notin> ID ` set (entries (NewVectorDB CosineSimilarity testEntries))"
    by (simp add: NewVectorDB_def testEntries_def)
  have s: "sorted (map ID (entries (NewVectorDB CosineSimilarity testEntries)))"
    "distinct (map ID (entries (NewVectorDB CosineSimilarity testEntries)))"
    by (simp_all add: NewVectorDB_def testEntries_def)
  from C9_delete_absent[OF a] a s show ?thesis by blast
qed

subsection \<open>C10: results are entries of the store that satisfy the predicate\<close>

text \<open>
  Claim C10. For every store, query vector and options for which Query returns, every
  result's entry is an entry of the store and satisfies the predicate if one is set, and
  there are at most as many results as the store has entries.
\<close>

theorem C10_results_from_store:
  assumes "Query db v opt = Inr rs"
  shows "(\<forall>r \<in> set rs. Entry r \<in> set (entries db) \<and> (\<forall>p. Predicate opt = Some p \<longrightarrow> p (Entry r))) \<and>
         length rs \<le> length (entries db)"
proof -
  from assms have q: "querySlice db (entries db) v opt = Inr rs" by (simp add: Query_def)
  have "\<forall>r \<in> set rs. Entry r \<in> set (entries db) \<and> (\<forall>p. Predicate opt = Some p \<longrightarrow> p (Entry r))"
    using querySlice_sound[OF q] by (auto simp: accepted_def)
  moreover have "length rs \<le> length (entries db)"
    using querySlice_length_accepted[OF q] length_filter_le[of "accepted db v opt" "entries db"]
    by (rule le_trans)
  ultimately show ?thesis by blast
qed

theorem C10_results_from_store_witness:
  "Query (NewVectorDB CosineSimilarity [axisA, axisB, axisC]) [1, 0]
     \<lparr>TopK = 5, MinimumScore = - 1, Predicate = Some (\<lambda>e. ID e \<noteq> ''b'')\<rparr>
     = Inr [\<lparr>Score = 1, Entry = axisA\<rparr>, \<lparr>Score = - 1, Entry = axisC\<rparr>] \<and>
   set (map Entry [\<lparr>Score = 1, Entry = axisA\<rparr>, \<lparr>Score = - 1, Entry = axisC\<rparr>])
     \<subseteq> set (entries (NewVectorDB CosineSimilarity [axisA, axisB, axisC])) \<and>
   list_all (\<lambda>r. ID (Entry r) \<noteq> ''b'') [\<lparr>Score = 1, Entry = axisA\<rparr>, \<lparr>Score = - 1 :: real, Entry = axisC\<rparr>] \<and>
   length [\<lparr>Score = 1, Entry = axisA\<rparr>, \<lparr>Score = - 1 :: real, Entry = axisC\<rparr>]
     \<le> length (entries (NewVectorDB CosineSimilarity [axisA, axisB, axisC]))"
proof -
  let ?db = "NewVectorDB CosineSimilarity [axisA, axisB, axisC]"
  let ?opt = "\<lparr>TopK = 5, MinimumScore = - 1, Predicate = Some (\<lambda>e. ID e \<noteq> ''b'')\<rparr>"
  let ?rs = "[\<lparr>Score = 1, Entry = axisA\<rparr>, \<lparr>Score = - 1 :: real, Entry = axisC\<rparr>]"
  have q: "Query ?db [1, 0] ?opt = Inr ?rs" by (simp add: eval_query)
  from C10_results_from_store[OF q]
  have "\<forall>r \<in> set ?rs. Entry r \<in> set (entries ?db) \<and> ID (Entry r) \<noteq> ''b''"
    and l: "length ?rs \<le> length (entries ?db)" by simp_all
  then have "set (map Entry ?rs) \<subseteq> set (entries ?db)" "list_all (\<lambda>r. ID (Entry r) \<noteq> ''b'') ?rs"
    by (simp_all only: list_all_iff set_map) blast+
  with q l show ?thesis by blast
qed

end
